theory Spec2Isabelle
  imports
    Main
    "HOL-Library.Char_ord"
    "HOL-Library.List_Lexorder"
    "HOL-Library.Product_Lexorder"
    "HOL-Library.Multiset"
begin

section \<open>Text\<close>

text \<open>
  A Python \<open>str\<close> is modelled as a \<^typ>\<open>string\<close>, each \<^typ>\<open>char\<close> standing for the
  code point of the same number (0 to 255). The character classes below are those of
  Python 3 on these code points: \<open>str.isspace\<close> (which is also what \<open>\s\<close> matches in a
  \<open>str\<close> pattern), \<open>str.isalnum\<close> (with the underscore, what \<open>\w\<close> matches) and
  \<open>str.lower\<close>. Strings are compared as Python compares them, code point by code point
  (\<open>Char_ord\<close>, \<open>List_Lexorder\<close>), and tuples lexicographically (\<open>Product_Lexorder\<close>).
\<close>

definition py_isspace :: "char \<Rightarrow> bool" where
  "py_isspace c = (let n = (of_char c :: nat) in
     (9 \<le> n \<and> n \<le> 13) \<or> (28 \<le> n \<and> n \<le> 32) \<or> n = 133 \<or> n = 160)"

definition py_isdigit :: "char \<Rightarrow> bool" where
  \<comment> \<open>what \<open>\d\<close> matches\<close>
  "py_isdigit c = (let n = (of_char c :: nat) in 48 \<le> n \<and> n \<le> 57)"

definition py_isupper :: "char \<Rightarrow> bool" where
  \<comment> \<open>the code points that \<open>str.lower\<close> changes\<close>
  "py_isupper c = (let n = (of_char c :: nat) in
     (65 \<le> n \<and> n \<le> 90) \<or> (192 \<le> n \<and> n \<le> 214) \<or> (216 \<le> n \<and> n \<le> 222))"

definition py_isalnum :: "char \<Rightarrow> bool" where
  "py_isalnum c = (let n = (of_char c :: nat) in
     (48 \<le> n \<and> n \<le> 57) \<or> (65 \<le> n \<and> n \<le> 90) \<or> (97 \<le> n \<and> n \<le> 122) \<or>
     n = 170 \<or> n = 178 \<or> n = 179 \<or> n = 181 \<or> n = 185 \<or> n = 186 \<or>
     (188 \<le> n \<and> n \<le> 190) \<or> (192 \<le> n \<and> n \<le> 214) \<or> (216 \<le> n \<and> n \<le> 246) \<or>
     248 \<le> n)"

definition word_char :: "char \<Rightarrow> bool" where
  \<comment> \<open>\<open>\w\<close>\<close>
  "word_char c = (py_isalnum c \<or> c = CHR ''_'')"

definition py_lower :: "char \<Rightarrow> char" where
  "py_lower c = (if py_isupper c then char_of ((of_char c :: nat) + 32) else c)"

definition lower :: "string \<Rightarrow> string" where
  "lower s = map py_lower s"

definition lstrip :: "string \<Rightarrow> string" where
  "lstrip s = dropWhile py_isspace s"

definition strip :: "string \<Rightarrow> string" where
  \<comment> \<open>\<open>s.strip()\<close>\<close>
  "strip s = rev (dropWhile py_isspace (rev (dropWhile py_isspace s)))"

definition strip_chars :: "string \<Rightarrow> string \<Rightarrow> string" where
  \<comment> \<open>\<open>s.strip(chars)\<close>\<close>
  "strip_chars chars s =
     rev (dropWhile (\<lambda>c. c \<in> set chars) (rev (dropWhile (\<lambda>c. c \<in> set chars) s)))"

definition replace_char :: "char \<Rightarrow> char \<Rightarrow> string \<Rightarrow> string" where
  \<comment> \<open>\<open>s.replace(a, b)\<close> for one-character \<open>a\<close> and \<open>b\<close>\<close>
  "replace_char a b s = map (\<lambda>c. if c = a then b else c) s"

text \<open>
  The three shapes of \<open>re.sub\<close> in the program. \<open>re.sub\<close> works from left to right and
  replaces each leftmost, greedy match: a pattern \<open>[class]\<close> matches one character, a
  pattern \<open>[class]+\<close> a maximal run of them, and \<open>-{2,}\<close> a maximal run of two or more
  hyphens.
\<close>

definition sub_class :: "(char \<Rightarrow> bool) \<Rightarrow> string \<Rightarrow> string \<Rightarrow> string" where
  \<comment> \<open>\<open>re.sub(r"[class]", rep, s)\<close>\<close>
  "sub_class P rep s = concat (map (\<lambda>c. if P c then rep else [c]) s)"

function sub_runs :: "(char \<Rightarrow> bool) \<Rightarrow> string \<Rightarrow> string \<Rightarrow> string" where
  \<comment> \<open>\<open>re.sub(r"[class]+", rep, s)\<close>\<close>
  "sub_runs P rep [] = []"
| "sub_runs P rep (c # cs) =
     (if P c then rep @ sub_runs P rep (dropWhile P cs) else c # sub_runs P rep cs)"
  by pat_completeness auto
termination
  by (relation "measure (\<lambda>(P, rep, s). length s)")
     (auto simp: le_imp_less_Suc length_dropWhile_le)

function sub_repeats :: "char \<Rightarrow> string \<Rightarrow> string \<Rightarrow> string" where
  \<comment> \<open>\<open>re.sub(r"x{2,}", rep, s)\<close> for a character \<open>x\<close>\<close>
  "sub_repeats x rep [] = []"
| "sub_repeats x rep [c] = [c]"
| "sub_repeats x rep (c # d # cs) =
     (if c = x \<and> d = x then rep @ sub_repeats x rep (dropWhile (\<lambda>e. e = x) cs)
      else c # sub_repeats x rep (d # cs))"
  by pat_completeness auto
termination
  by (relation "measure (\<lambda>(x, rep, s). length s)")
     (auto simp: le_imp_less_Suc length_dropWhile_le less_Suc_eq_le le_SucI)

section \<open>Sanitizers\<close>

definition slug_keep :: "char \<Rightarrow> bool" where
  \<comment> \<open>the characters outside the class \<open>[^\w\s-]\<close>\<close>
  "slug_keep c = (word_char c \<or> py_isspace c \<or> c = CHR ''-'')"

definition slugify :: "string \<Rightarrow> string" where
  "slugify s0 =
     (let s1 = lower (strip s0);
          s2 = sub_class (\<lambda>c. \<not> slug_keep c) [] s1;
          s3 = sub_runs (\<lambda>c. py_isspace c \<or> c = CHR ''_'') ''-'' s2;
          s4 = strip_chars ''-'' (sub_repeats (CHR ''-'') ''-'' s3)
      in if s4 = [] then ''note'' else s4)"

definition safe_segment :: "string \<Rightarrow> string" where
  "safe_segment s0 =
     (let s1 = strip s0;
          s2 = sub_class (\<lambda>c. \<not> slug_keep c) [] s1;
          s3 = sub_runs py_isspace ''_'' s2
      in if s3 = [] then ''unknown'' else s3)"

text \<open>
  The sanitizers as the specification words them. A run of characters of a class is
  collapsed by emitting the replacement where the run starts and nothing for the rest
  of it; "repeated hyphens" are the runs of hyphens.
\<close>

fun collapse :: "(char \<Rightarrow> bool) \<Rightarrow> string \<Rightarrow> bool \<Rightarrow> string \<Rightarrow> string" where
  "collapse P rep inrun [] = []"
| "collapse P rep inrun (c # cs) =
     (if P c then (if inrun then [] else rep) @ collapse P rep True cs
      else c # collapse P rep False cs)"

definition slugify_spec :: "string \<Rightarrow> string" where
  "slugify_spec s =
     (let lowered = lower s;
          stripped = strip lowered;
          kept = filter slug_keep stripped;
          hyphenated = collapse (\<lambda>c. py_isspace c \<or> c = CHR ''_'') ''-'' False kept;
          single = collapse (\<lambda>c. c = CHR ''-'') ''-'' False hyphenated;
          trimmed = strip_chars ''-'' single
      in if trimmed = [] then ''note'' else trimmed)"

definition safe_segment_spec :: "string \<Rightarrow> string" where
  "safe_segment_spec s =
     (let stripped = strip s;
          kept = filter slug_keep stripped;
          joined = collapse py_isspace ''_'' False kept
      in if joined = [] then ''unknown'' else joined)"


text \<open>Shapes of the sanitizers' results: no character \<open>x\<close> twice in a row, and the
  characters a slug is made of.\<close>

fun no_rep :: "char \<Rightarrow> string \<Rightarrow> bool" where
  "no_rep x [] = True"
| "no_rep x [c] = True"
| "no_rep x (c # d # cs) = (\<not> (c = x \<and> d = x) \<and> no_rep x (d # cs))"

definition slug_char :: "char \<Rightarrow> bool" where
  "slug_char c = (slug_keep c \<and> \<not> py_isspace c \<and> c \<noteq> CHR ''_'' \<and> \<not> py_isupper c)"

section \<open>Dates\<close>

text \<open>
  A \<open>datetime.date\<close> is its triple (year, month, day); dates compare as these triples do.
  The constructor accepts the years 1 to 9999 and the days of the proleptic Gregorian
  calendar, and raises \<open>ValueError\<close> (here \<open>None\<close>) for anything else.
\<close>

type_synonym pydate = "nat \<times> nat \<times> nat"

definition date_min :: pydate where
  "date_min = (1, 1, 1)"

definition is_leap :: "nat \<Rightarrow> bool" where
  "is_leap y = (y mod 4 = 0 \<and> (y mod 100 \<noteq> 0 \<or> y mod 400 = 0))"

definition days_in_month :: "nat \<Rightarrow> nat \<Rightarrow> nat" where
  "days_in_month y m =
     (if m = 2 then (if is_leap y then 29 else 28)
      else if m = 4 \<or> m = 6 \<or> m = 9 \<or> m = 11 then 30 else 31)"

definition make_date :: "nat \<Rightarrow> nat \<Rightarrow> nat \<Rightarrow> pydate option" where
  "make_date y m d =
     (if 1 \<le> y \<and> y \<le> 9999 \<and> 1 \<le> m \<and> m \<le> 12 \<and> 1 \<le> d \<and> d \<le> days_in_month y m
      then Some (y, m, d) else None)"

text \<open>
  \<open>datetime.strptime(s, "%Y-%m-%d")\<close> compiles the format to the regular expression
  \<^verbatim>\<open>(?P<Y>\d\d\d\d)-(?P<m>1[0-2]|0[1-9]|[1-9])-(?P<d>3[0-1]|[1-2]\d|0[1-9]|[1-9]| [1-9])\<close>,
  matches it at the start of \<open>s\<close>, raises \<open>ValueError\<close> when it does not match or when
  the match does not reach the end of \<open>s\<close>, and builds the date from the three numbers.
  Each piece of the expression is a function from the text to its matches in the order
  the matcher tries them, each with the text that is left; the first match of the whole
  expression is the head of the list.
\<close>

definition digit_val :: "char \<Rightarrow> nat" where
  "digit_val c = of_char c - 48"

definition int_of :: "string \<Rightarrow> nat" where
  \<comment> \<open>\<open>int(s)\<close> for a string of digits\<close>
  "int_of s = foldl (\<lambda>n c. 10 * n + digit_val c) 0 s"

definition in_range :: "char \<Rightarrow> char \<Rightarrow> char \<Rightarrow> bool" where
  \<comment> \<open>the class \<open>[a-b]\<close>\<close>
  "in_range a b c = (a \<le> c \<and> c \<le> b)"

definition two_chars :: "(char \<Rightarrow> bool) \<Rightarrow> (char \<Rightarrow> bool) \<Rightarrow> string \<Rightarrow> (nat \<times> string) list" where
  "two_chars P Q s =
     (case s of a # b # rest \<Rightarrow> if P a \<and> Q b then [(int_of [a, b], rest)] else [] | _ \<Rightarrow> [])"

definition one_char :: "(char \<Rightarrow> bool) \<Rightarrow> string \<Rightarrow> (nat \<times> string) list" where
  "one_char P s = (case s of a # rest \<Rightarrow> if P a then [(int_of [a], rest)] else [] | _ \<Rightarrow> [])"

definition re_Y :: "string \<Rightarrow> (nat \<times> string) list" where
  "re_Y s =
     (case s of a # b # c # d # rest \<Rightarrow>
        if py_isdigit a \<and> py_isdigit b \<and> py_isdigit c \<and> py_isdigit d
        then [(int_of [a, b, c, d], rest)] else []
      | _ \<Rightarrow> [])"

definition re_m :: "string \<Rightarrow> (nat \<times> string) list" where
  "re_m s =
     two_chars (\<lambda>c. c = CHR ''1'') (in_range (CHR ''0'') (CHR ''2'')) s @
     two_chars (\<lambda>c. c = CHR ''0'') (in_range (CHR ''1'') (CHR ''9'')) s @
     one_char (in_range (CHR ''1'') (CHR ''9'')) s"

definition re_d :: "string \<Rightarrow> (nat \<times> string) list" where
  "re_d s =
     two_chars (\<lambda>c. c = CHR ''3'') (in_range (CHR ''0'') (CHR ''1'')) s @
     two_chars (in_range (CHR ''1'') (CHR ''2'')) py_isdigit s @
     two_chars (\<lambda>c. c = CHR ''0'') (in_range (CHR ''1'') (CHR ''9'')) s @
     one_char (in_range (CHR ''1'') (CHR ''9'')) s @
     (case s of a # rest \<Rightarrow> if a = CHR '' '' then one_char (in_range (CHR ''1'') (CHR ''9'')) rest else []
      | _ \<Rightarrow> [])"

definition re_lit :: "char \<Rightarrow> string \<Rightarrow> string list" where
  "re_lit x s = (case s of a # rest \<Rightarrow> if a = x then [rest] else [] | _ \<Rightarrow> [])"

definition format_regex :: "string \<Rightarrow> (nat \<times> nat \<times> nat \<times> string) list" where
  "format_regex s =
     concat (map (\<lambda>(y, r1).
       concat (map (\<lambda>r2.
         concat (map (\<lambda>(m, r3).
           concat (map (\<lambda>r4.
             map (\<lambda>(d, r5). (y, m, d, r5)) (re_d r4))
           (re_lit (CHR ''-'') r3)))
         (re_m r2)))
       (re_lit (CHR ''-'') r1)))
     (re_Y s))"

definition strptime :: "string \<Rightarrow> pydate option" where
  \<comment> \<open>\<open>datetime.strptime(s, "%Y-%m-%d").date()\<close>; \<open>None\<close> is \<open>ValueError\<close>\<close>
  "strptime s =
     (case format_regex s of
        [] \<Rightarrow> None
      | (y, m, d, rest) # _ \<Rightarrow> if rest \<noteq> [] then None else make_date y m d)"

definition parse_note_date :: "string option \<Rightarrow> pydate" where
  "parse_note_date d =
     (case d of
        None \<Rightarrow> date_min
      | Some s \<Rightarrow>
          if s = [] then date_min
          else (case strptime (strip s) of Some dt \<Rightarrow> dt | None \<Rightarrow> date_min))"


section \<open>Notes and their order\<close>

text \<open>
  The paths of a note are kept as lists of components: \<open>src\<close> relative to the staging
  directory, \<open>out\<close> relative to the repository root (\<open>n.out.relative_to(REPO_ROOT)\<close>).
\<close>

record Note =
  title :: string
  date :: "string option"
  tags :: "string list"
  topic :: string
  course :: string
  slug :: string
  src :: "string list"
  out :: "string list"

definition note_key :: "Note \<Rightarrow> pydate \<times> string" where
  \<comment> \<open>\<open>lambda n: (parse_note_date(n.date), n.title.lower())\<close>\<close>
  "note_key n = (parse_note_date (date n), lower (title n))"

text \<open>
  \<open>sorted\<close> and \<open>list.sort\<close> are stable. With \<open>reverse=True\<close> the result is descending
  and elements with equal keys still keep the order they had: the list is reversed,
  sorted and reversed again.
\<close>

definition py_sorted :: "('a \<Rightarrow> 'k::linorder) \<Rightarrow> bool \<Rightarrow> 'a list \<Rightarrow> 'a list" where
  "py_sorted key reverse xs =
     (if reverse then rev (sort_key key (rev xs)) else sort_key key xs)"

definition as_posix :: "string list \<Rightarrow> string" where
  "as_posix parts = (case parts of [] \<Rightarrow> ''.'' | p # ps \<Rightarrow> p @ concat (map (\<lambda>q. CHR ''/'' # q) ps))"

section \<open>Homepage\<close>

text \<open>
  The homepage is a fixed header followed by one list item per note. An item is kept
  as its three parts: the link text, the link target and the date that follows the
  link (none when the note has no date or an empty one).
\<close>

record index_entry =
  entry_text :: string
  entry_href :: string
  entry_date :: "string option"

definition homepage_entry :: "Note \<Rightarrow> index_entry" where
  "homepage_entry n =
     \<lparr>entry_text = title n, entry_href = as_posix (out n),
      entry_date = (case date n of None \<Rightarrow> None | Some d \<Rightarrow> if d = [] then None else Some d)\<rparr>"

definition notes_sorted :: "Note list \<Rightarrow> Note list" where
  "notes_sorted notes = py_sorted note_key True notes"

definition write_homepage :: "Note list \<Rightarrow> index_entry list" where
  \<comment> \<open>the items under "Recent notes" of the \<open>index.qmd\<close> that is written\<close>
  "write_homepage notes = map homepage_entry (take 30 (notes_sorted notes))"

section \<open>Navigation\<close>

text \<open>
  A \<open>dict\<close> is an association list in insertion order with one pair for each key.
  \<open>d[k] = v\<close> replaces the value of a key that is there and appends a new key.
\<close>

type_synonym ('k, 'v) dict = "('k \<times> 'v) list"

fun dict_set :: "('k, 'v) dict \<Rightarrow> 'k \<Rightarrow> 'v \<Rightarrow> ('k, 'v) dict" where
  "dict_set [] k v = [(k, v)]"
| "dict_set ((k', v') # d) k v = (if k' = k then (k, v) # d else (k', v') # dict_set d k v)"

definition keys :: "('k, 'v) dict \<Rightarrow> 'k list" where
  "keys d = map fst d"

type_synonym tree = "(string, (string, Note list) dict) dict"

definition tree_add :: "tree \<Rightarrow> Note \<Rightarrow> tree" where
  \<comment> \<open>\<open>tree.setdefault(n.topic, {}).setdefault(n.course, []).append(n)\<close>\<close>
  "tree_add tree n =
     (let courses = (case map_of tree (topic n) of None \<Rightarrow> [] | Some cs \<Rightarrow> cs);
          group = (case map_of courses (course n) of None \<Rightarrow> [] | Some ns \<Rightarrow> ns)
      in dict_set tree (topic n) (dict_set courses (course n) (group @ [n])))"

definition build_tree :: "Note list \<Rightarrow> tree" where
  "build_tree notes = foldl tree_add [] notes"

definition sort_groups :: "tree \<Rightarrow> tree" where
  \<comment> \<open>the first loop: every group is sorted in place\<close>
  "sort_groups tree =
     map (\<lambda>(t, courses). (t, map (\<lambda>(c, ns). (c, py_sorted note_key False ns)) courses)) tree"

datatype item =
    Link string string        \<comment> \<open>\<open>{"text": ..., "href": ...}\<close>\<close>
  | Section string "item list" \<comment> \<open>\<open>{"section": ..., "contents": [...]}\<close>\<close>

datatype error = UnboundLocalError string | KeyError string

fun each :: "('a \<Rightarrow> error + 'b) \<Rightarrow> 'a list \<Rightarrow> error + 'b list" where
  \<comment> \<open>a loop that appends one result per element and stops at the first exception\<close>
  "each f [] = Inr []"
| "each f (x # xs) =
     (case f x of Inl e \<Rightarrow> Inl e
      | Inr y \<Rightarrow> (case each f xs of Inl e \<Rightarrow> Inl e | Inr ys \<Rightarrow> Inr (y # ys)))"

definition note_link :: "Note \<Rightarrow> item" where
  "note_link n = Link (title n) (as_posix (out n))"

definition course_section :: "(string, Note list) dict \<Rightarrow> string \<Rightarrow> error + item" where
  "course_section courses c =
     (case map_of courses c of
        None \<Rightarrow> Inl (KeyError c)
      | Some ns \<Rightarrow> Inr (Section (replace_char (CHR ''_'') (CHR '' '') c) (map note_link ns)))"

definition topic_section :: "tree \<Rightarrow> string \<Rightarrow> error + item" where
  "topic_section tree t =
     (case map_of tree t of
        None \<Rightarrow> Inl (KeyError t)
      | Some courses \<Rightarrow>
          (case each (course_section courses) (sort (keys courses)) of
             Inl e \<Rightarrow> Inl e
           | Inr secs \<Rightarrow> Inr (Section (replace_char (CHR ''_'') (CHR '' '') t) secs)))"

definition generate_quarto_yml :: "Note list \<Rightarrow> error + item list" where
  \<comment> \<open>the sidebar contents of the \<open>_quarto.yml\<close> that is written, or the exception raised
      before anything is written\<close>
  "generate_quarto_yml notes =
     (let tree = sort_groups (build_tree notes);
          sidebar_contents = (if tree = [] then None else Some [Link ''Home'' ''index.qmd''])
      in case each (topic_section tree) (sort (keys tree)) of
           Inl e \<Rightarrow> Inl e
         | Inr secs \<Rightarrow>
             (case sidebar_contents of
                None \<Rightarrow> Inl (UnboundLocalError ''sidebar_contents'')
              | Some home \<Rightarrow> Inr (home @ secs)))"


section \<open>Metadata\<close>

text \<open>
  A document is the text decoded from the file. Reading it in text mode turns every
  line ending (\<open>\r\n\<close>, \<open>\r\<close>) into \<open>\n\<close>, and iterating over the file yields the
  lines with their \<open>\n\<close>.
\<close>

abbreviation LF :: char where "LF \<equiv> CHR 0x0A"
abbreviation CR :: char where "CR \<equiv> CHR 0x0D"

fun universal_newlines :: "string \<Rightarrow> string" where
  "universal_newlines [] = []"
| "universal_newlines [c] = (if c = CR then [LF] else [c])"
| "universal_newlines (c # d # cs) =
     (if c = CR \<and> d = LF then LF # universal_newlines cs
      else if c = CR then LF # universal_newlines (d # cs)
      else c # universal_newlines (d # cs))"

fun readlines :: "string \<Rightarrow> string \<Rightarrow> string list" where
  \<comment> \<open>the first argument is the line read so far\<close>
  "readlines cur [] = (if cur = [] then [] else [cur])"
| "readlines cur (c # cs) =
     (if c = LF then (cur @ [c]) # readlines [] cs else readlines (cur @ [c]) cs)"

definition file_lines :: "string \<Rightarrow> string list" where
  "file_lines doc = readlines [] (universal_newlines doc)"

text \<open>
  \<open>META_LINE_RE\<close> is \<^verbatim>\<open>^\s*%\s*([A-Za-z0-9_\-]+)\s*:\s*(.*?)\s*$\<close>. No character of a
  greedy piece can start the piece after it (whitespace, then \<open>%\<close>; whitespace, then a
  key character; key characters, then whitespace or the colon), so each greedy piece
  takes the longest run. The value is the shortest text after which only whitespace
  remains, that is the rest without its trailing whitespace; \<open>.\<close> does not match a
  newline, so there is no match when a newline is inside it. The result of a match is
  the pair of the two groups.
\<close>

definition key_char :: "char \<Rightarrow> bool" where
  \<comment> \<open>the class \<open>[A-Za-z0-9_\-]\<close>\<close>
  "key_char c =
     (in_range (CHR ''A'') (CHR ''Z'') c \<or> in_range (CHR ''a'') (CHR ''z'') c \<or>
      in_range (CHR ''0'') (CHR ''9'') c \<or> c = CHR ''_'' \<or> c = CHR ''-'')"

definition META_LINE_RE :: "string \<Rightarrow> (string \<times> string) option" where
  "META_LINE_RE line =
     (case dropWhile py_isspace line of
        [] \<Rightarrow> None
      | p # after_marker \<Rightarrow>
          if p \<noteq> CHR ''%'' then None
          else
            let s = dropWhile py_isspace after_marker;
                key = takeWhile key_char s
            in if key = [] then None
               else
                 (case dropWhile py_isspace (dropWhile key_char s) of
                    [] \<Rightarrow> None
                  | q # after_colon \<Rightarrow>
                      if q \<noteq> CHR '':'' then None
                      else
                        let v = rev (dropWhile py_isspace (rev (dropWhile py_isspace after_colon)))
                        in if LF \<in> set v then None else Some (key, v)))"

definition startswith :: "string \<Rightarrow> char \<Rightarrow> bool" where
  "startswith s x = (case s of [] \<Rightarrow> False | c # _ \<Rightarrow> c = x)"

fun scan_lines :: "(string \<rightharpoonup> string) \<Rightarrow> string list \<Rightarrow> (string \<rightharpoonup> string)" where
  \<comment> \<open>the loop over the lines, with its \<open>continue\<close> and its \<open>break\<close>\<close>
  "scan_lines meta [] = meta"
| "scan_lines meta (line # rest) =
     (if strip line = [] then scan_lines meta rest
      else if \<not> startswith (lstrip line) (CHR ''%'') then meta
      else
        (case META_LINE_RE line of
           Some (k, v) \<Rightarrow> scan_lines (meta(lower (strip k) \<mapsto> strip v)) rest
         | None \<Rightarrow> scan_lines meta rest))"

definition parse_tex_metadata :: "string \<Rightarrow> (string \<rightharpoonup> string)" where
  "parse_tex_metadata doc = scan_lines Map.empty (file_lines doc)"

text \<open>
  The metadata as the specification words it: the lines scanned are the leading ones
  that are blank or comments; of these, the comment lines that match are recorded in
  order, a later key overwriting an earlier one.
\<close>

definition blank :: "string \<Rightarrow> bool" where
  "blank line = (strip line = [])"

definition comment :: "string \<Rightarrow> bool" where
  "comment line = startswith (lstrip line) (CHR ''%'')"

definition scanned :: "string list \<Rightarrow> string list" where
  "scanned ls = takeWhile (\<lambda>line. blank line \<or> comment line) ls"

definition record_line :: "(string \<rightharpoonup> string) \<Rightarrow> string \<Rightarrow> (string \<rightharpoonup> string)" where
  "record_line meta line =
     (case META_LINE_RE line of
        Some (k, v) \<Rightarrow> meta(lower k \<mapsto> v)
      | None \<Rightarrow> meta)"

definition metadata_spec :: "string \<Rightarrow> (string \<rightharpoonup> string)" where
  "metadata_spec doc = foldl record_line Map.empty (filter comment (scanned (file_lines doc)))"

section \<open>Classification and the registry\<close>

text \<open>
  \<open>die\<close> prints \<open>ERROR:\<close> and a message on the error stream and leaves the program with
  the exit code. The message is kept as a value that says which one it is.
\<close>

datatype message =
    Expected_layout "string list"
  | Pandoc_missing
  | Missing_staging
  | No_tex_files
  | Pandoc_failed "string list" string

datatype abort = SystemExit nat message | Exception error

definition die :: "message \<Rightarrow> nat \<Rightarrow> abort" where
  "die msg code = SystemExit code msg"

text \<open>A source file: its path below the staging directory (\<open>rel.parts\<close>) and its text.\<close>

record tex_file =
  path :: "string list"
  source_text :: string

definition infer_topic_course :: "string list \<Rightarrow> abort + string \<times> string" where
  "infer_topic_course parts =
     (if length parts < 3 then Inl (die (Expected_layout parts) 1)
      else Inr (parts ! 0, parts ! 1))"

fun split_acc :: "char \<Rightarrow> string \<Rightarrow> string \<Rightarrow> string list" where
  "split_acc sep cur [] = [cur]"
| "split_acc sep cur (c # cs) =
     (if c = sep then cur # split_acc sep [] cs else split_acc sep (cur @ [c]) cs)"

definition split :: "string \<Rightarrow> char \<Rightarrow> string list" where
  \<comment> \<open>\<open>s.split(sep)\<close>\<close>
  "split s sep = split_acc sep [] s"

definition stem :: "string \<Rightarrow> string" where
  \<comment> \<open>\<open>PurePath.stem\<close> of a file name: the name up to its last dot, unless that dot is
      the first or the last character\<close>
  "stem name =
     (if CHR ''.'' \<notin> set name then name
      else
        let i = length name - 1 - length (takeWhile (\<lambda>c. c \<noteq> CHR ''.'') (rev name))
        in if 0 < i \<and> i < length name - 1 then take i name else name)"

text \<open>
  \<open>str.title\<close>: a character that follows a cased character is lowercased, any other is
  titlecased. The title case of a character can be two characters (\<open>Ss\<close> for the code
  point 223). The title case of the code points 181 and 255 lies outside the code
  points of this model; these two are left as they are.
\<close>

definition py_iscased :: "char \<Rightarrow> bool" where
  "py_iscased c = (let n = (of_char c :: nat) in
     (65 \<le> n \<and> n \<le> 90) \<or> (97 \<le> n \<and> n \<le> 122) \<or> n = 170 \<or> n = 181 \<or> n = 186 \<or>
     (192 \<le> n \<and> n \<le> 214) \<or> (216 \<le> n \<and> n \<le> 246) \<or> 248 \<le> n)"

definition py_totitle :: "char \<Rightarrow> string" where
  "py_totitle c = (let n = (of_char c :: nat) in
     if (97 \<le> n \<and> n \<le> 122) \<or> (224 \<le> n \<and> n \<le> 246) \<or> (248 \<le> n \<and> n \<le> 254)
     then [char_of (n - 32)]
     else if n = 223 then ''Ss''
     else [c])"

fun title_loop :: "bool \<Rightarrow> string \<Rightarrow> string" where
  "title_loop previous_is_cased [] = []"
| "title_loop previous_is_cased (c # cs) =
     (if previous_is_cased then [py_lower c] else py_totitle c) @ title_loop (py_iscased c) cs"

definition py_title :: "string \<Rightarrow> string" where
  "py_title s = title_loop False s"

definition note_of :: "tex_file \<Rightarrow> abort + Note" where
  \<comment> \<open>the body of the loop of \<open>build_notes_index\<close>\<close>
  "note_of p =
     (let meta = parse_tex_metadata (source_text p)
      in case infer_topic_course (path p) of
           Inl a \<Rightarrow> Inl a
         | Inr (topic_raw, course_raw) \<Rightarrow>
             let topic' = safe_segment topic_raw;
                 course' = safe_segment course_raw;
                 derived = py_title (replace_char (CHR ''-'') (CHR '' '')
                             (replace_char (CHR ''_'') (CHR '' '') (stem (last (path p)))));
                 title' = (case meta ''title'' of
                             None \<Rightarrow> derived
                           | Some t \<Rightarrow> if t = [] then derived else t);
                 tags' = map strip (filter (\<lambda>t. strip t \<noteq> [])
                           (split (case meta ''tags'' of None \<Rightarrow> [] | Some t \<Rightarrow> t) (CHR '','')));
                 slug' = slugify title'
             in Inr \<lparr>title = title', date = meta ''date'', tags = tags', topic = topic',
                      course = course', slug = slug', src = path p,
                      out = [''notes'', topic', course', slug' @ ''.qmd'']\<rparr>)"

fun index_loop :: "Note list \<Rightarrow> tex_file list \<Rightarrow> abort + Note list" where
  "index_loop notes [] = Inr notes"
| "index_loop notes (p # ps) =
     (case note_of p of Inl a \<Rightarrow> Inl a | Inr n \<Rightarrow> index_loop (notes @ [n]) ps)"

definition build_notes_index :: "tex_file list \<Rightarrow> abort + Note list" where
  "build_notes_index tex_files = index_loop [] tex_files"

section \<open>The program\<close>

text \<open>
  What the program finds around it, and what it does to the file system and prints.
  \<open>staged\<close> is the sorted list of \<open>.tex\<close> files below the staging directory, \<open>pandoc\<close>
  the result of converting a source (the error text of a failed run, or the body), and
  \<open>asset_dir\<close> says whether a directory of that name lies beside a source.
\<close>

record env =
  pandoc_found :: bool
  staging_exists :: bool
  staged :: "tex_file list"
  pandoc :: "string list \<Rightarrow> string + string"
  asset_dir :: "string list \<Rightarrow> string \<Rightarrow> bool"

datatype effect =
    Clean_output
  | Make_dir "string list"
  | Write_note Note string
  | Copy_tree "string list" "string list"
  | Write_index "index_entry list"
  | Write_quarto "item list"
  | Print_summary nat

definition tex_to_qmd :: "env \<Rightarrow> Note \<Rightarrow> abort option \<times> effect list" where
  "tex_to_qmd e n =
     (case pandoc e (src n) of
        Inl stderr \<Rightarrow> (Some (die (Pandoc_failed (src n) stderr) 1), [Make_dir (butlast (out n))])
      | Inr body \<Rightarrow> (None, [Make_dir (butlast (out n)), Write_note n body]))"

definition copy_note_assets :: "env \<Rightarrow> Note \<Rightarrow> effect list" where
  "copy_note_assets e n =
     concat (map (\<lambda>folder_name.
       if asset_dir e (src n) folder_name
       then [Copy_tree (butlast (src n) @ [folder_name]) (butlast (out n) @ [folder_name])]
       else [])
     [''images'', ''assets''])"

fun notes_loop :: "env \<Rightarrow> Note list \<Rightarrow> abort option \<times> effect list" where
  "notes_loop e [] = (None, [])"
| "notes_loop e (n # ns) =
     (case tex_to_qmd e n of
        (Some a, w) \<Rightarrow> (Some a, w)
      | (None, w) \<Rightarrow>
          (case notes_loop e ns of (r, es) \<Rightarrow> (r, w @ copy_note_assets e n @ es)))"

definition main :: "env \<Rightarrow> abort option \<times> effect list" where
  "main e =
     (if \<not> pandoc_found e then (Some (die Pandoc_missing 1), [])
      else if \<not> staging_exists e then (Some (die Missing_staging 1), [])
      else if staged e = [] then (Some (die No_tex_files 1), [])
      else
        (case build_notes_index (staged e) of
           Inl a \<Rightarrow> (Some a, [])
         | Inr notes \<Rightarrow>
             (case notes_loop e notes of
                (Some a, es) \<Rightarrow> (Some a, Clean_output # es)
              | (None, es) \<Rightarrow>
                  (case generate_quarto_yml notes of
                     Inl x \<Rightarrow>
                       (Some (Exception x),
                        Clean_output # es @ [Write_index (write_homepage notes)])
                   | Inr items \<Rightarrow>
                       (None,
                        Clean_output # es @
                        [Write_index (write_homepage notes), Write_quarto items,
                         Print_summary (length notes)])))))"



section \<open>Grouping and navigation as specified\<close>

text \<open>
  The group of a topic and a course holds the notes with that topic and course; the
  navigation lists the topics in order, under each topic its courses in order, and
  under each course the notes of the group in ascending order of their keys.
\<close>

definition group_of :: "Note list \<Rightarrow> string \<Rightarrow> string \<Rightarrow> Note list" where
  "group_of notes t c = filter (\<lambda>n. topic n = t \<and> course n = c) notes"

definition nav_topics :: "Note list \<Rightarrow> string list" where
  "nav_topics notes = sort (remdups (map topic notes))"

definition nav_courses :: "Note list \<Rightarrow> string \<Rightarrow> string list" where
  "nav_courses notes t = sort (remdups (map course (filter (\<lambda>n. topic n = t) notes)))"

definition nav_group :: "Note list \<Rightarrow> string \<Rightarrow> string \<Rightarrow> Note list" where
  "nav_group notes t c = sort_key note_key (group_of notes t c)"

definition label :: "string \<Rightarrow> string" where
  "label s = replace_char (CHR ''_'') (CHR '' '') s"

definition navigation_spec :: "Note list \<Rightarrow> item list" where
  "navigation_spec notes =
     Link ''Home'' ''index.qmd'' #
     map (\<lambda>t. Section (label t)
            (map (\<lambda>c. Section (label c) (map note_link (nav_group notes t c)))
               (nav_courses notes t)))
       (nav_topics notes)"

text \<open>The leaves of the navigation, and the groups of a tree with their keys.\<close>

fun leaves :: "item \<Rightarrow> item list" where
  "leaves (Link t h) = [Link t h]"
| "leaves (Section s items) = concat (map leaves items)"

definition groups :: "tree \<Rightarrow> ((string \<times> string) \<times> Note list) list" where
  "groups tr = concat (map (\<lambda>(t, cs). map (\<lambda>(c, g). ((t, c), g)) cs) tr)"

text \<open>
  The invariant of the grouping loop: after the notes seen so far, the tree has one
  key per topic seen, under it one key per course seen with that topic, and under
  that the notes of the group in the order they came.
\<close>

definition courses_ok :: "Note list \<Rightarrow> string \<Rightarrow> (string, Note list) dict \<Rightarrow> bool" where
  "courses_ok notes t cs \<longleftrightarrow>
     distinct (keys cs) \<and> set (keys cs) = course ` {n \<in> set notes. topic n = t} \<and>
     (\<forall>c ns. map_of cs c = Some ns \<longrightarrow> ns = group_of notes t c)"

definition tree_ok :: "Note list \<Rightarrow> tree \<Rightarrow> bool" where
  "tree_ok notes tr \<longleftrightarrow>
     distinct (keys tr) \<and> set (keys tr) = topic ` set notes \<and>
     (\<forall>t cs. map_of tr t = Some cs \<longrightarrow> courses_ok notes t cs)"

section \<open>Example data\<close>

definition intro_math :: Note where
  "intro_math = \<lparr>title = ''Intro'', date = None, tags = [], topic = ''math'',
     course = ''linear_algebra'', slug = ''intro'',
     src = [''math'', ''linear_algebra'', ''intro.tex''],
     out = [''notes'', ''math'', ''linear_algebra'', ''intro.qmd'']\<rparr>"

definition intro_physics :: Note where
  "intro_physics = \<lparr>title = ''Intro'', date = None, tags = [], topic = ''physics'',
     course = ''mechanics'', slug = ''intro'',
     src = [''physics'', ''mechanics'', ''intro.tex''],
     out = [''notes'', ''physics'', ''mechanics'', ''intro.qmd'']\<rparr>"

definition newton :: Note where
  "newton = \<lparr>title = ''Newton's Laws'', date = Some ''2024-01-05'',
     tags = [''classical'', ''motion''], topic = ''physics'', course = ''mechanics'',
     slug = ''newtons-laws'', src = [''physics'', ''mechanics'', ''newton.tex''],
     out = [''notes'', ''physics'', ''mechanics'', ''newtons-laws.qmd'']\<rparr>"

definition first_day :: Note where
  "first_day = \<lparr>title = ''A'', date = Some ''0001-01-01'', tags = [], topic = ''physics'',
     course = ''mechanics'', slug = ''a'', src = [''physics'', ''mechanics'', ''a.tex''],
     out = [''notes'', ''physics'', ''mechanics'', ''a.qmd'']\<rparr>"

definition newton_tex :: string where
  "newton_tex = ''% title: Newton's Laws'' @ [LF] @ ''% date: 2024-01-05'' @ [LF] @
     ''% tags: classical, motion'' @ [LF] @ [LF] @ ''Every action has a reaction.'' @ [LF]"

definition staged_files :: "tex_file list" where
  "staged_files =
     [\<lparr>path = [''math'', ''linear_algebra'', ''intro.tex''], source_text = ''Vectors.''\<rparr>,
      \<lparr>path = [''physics'', ''mechanics'', ''intro.tex''], source_text = ''Forces.''\<rparr>,
      \<lparr>path = [''physics'', ''mechanics'', ''newton.tex''], source_text = newton_tex\<rparr>]"

definition example_env :: "tex_file list \<Rightarrow> env" where
  "example_env files = \<lparr>pandoc_found = True, staging_exists = True, staged = files,
     pandoc = (\<lambda>p. Inr ''converted''), asset_dir = (\<lambda>p folder. False)\<rparr>"

text \<open>A document with two titles, a comment without a key and a comment after the text.\<close>

definition two_titles :: string where
  "two_titles = ''% title: Draft'' @ [LF] @ [LF] @ ''  % see the appendix'' @ [LF] @
     ''% Title :  Final  '' @ [LF] @ ''Text.'' @ [LF] @ ''% title: Late'' @ [LF]"

text \<open>A document whose lines end in \<open>\r\n\<close> and in \<open>\r\<close>.\<close>

definition line_endings :: string where
  "line_endings = ''% a: 1'' @ [CR, LF] @ ''% b: 2'' @ [CR] @ ''Text''"

section \<open>Dates and metadata as specified\<close>










text \<open>
  A metadata line in words: whitespace, the marker, whitespace, a key, whitespace, a
  colon and the raw value; the key is a nonempty run of key characters and the value
  is the raw value without the whitespace around it.
\<close>

definition meta_line :: "string \<Rightarrow> string \<Rightarrow> string \<Rightarrow> bool" where
  "meta_line line k v \<longleftrightarrow>
     (\<exists>w1 w2 w3 raw.
        line = w1 @ ''%'' @ w2 @ k @ w3 @ '':'' @ raw \<and>
        list_all py_isspace w1 \<and> list_all py_isspace w2 \<and> list_all py_isspace w3 \<and>
        k \<noteq> [] \<and> list_all key_char k \<and> v = strip raw \<and> LF \<notin> set v)"

section \<open>Properties of the sanitizers\<close>

subsection \<open>Characters\<close>

lemma py_lower_not_upper: "\<not> py_isupper (py_lower c)"
  unfolding py_lower_def py_isupper_def Let_def by auto

lemma py_lower_fix: "\<not> py_isupper c \<Longrightarrow> py_lower c = c"
  by (simp add: py_lower_def)

lemma py_isspace_lower: "py_isspace (py_lower c) = py_isspace c"
  unfolding py_lower_def py_isupper_def py_isspace_def Let_def by auto

lemma of_char_lower:
  "(of_char (py_lower c) :: nat) = (if py_isupper c then of_char c + 32 else of_char c)"
  unfolding py_lower_def py_isupper_def Let_def by auto

lemma char_eq_code: "c = d \<longleftrightarrow> (of_char c :: nat) = of_char d"
  by simp

lemma not_space_hyphen: "\<not> py_isspace (CHR ''-'')"
  by (simp add: py_isspace_def)

lemma not_upper_hyphen: "\<not> py_isupper (CHR ''-'')"
  by (simp add: py_isupper_def)

subsection \<open>Stripping\<close>

lemma dropWhile_none: "\<forall>c\<in>set s. \<not> P c \<Longrightarrow> dropWhile P s = s"
  by (cases s) auto

lemma strip_gen_sublist:
  "\<exists>a b. s = a @ rev (dropWhile P (rev (dropWhile P s))) @ b"
proof -
  let ?d = "dropWhile P s"
  have 1: "s = takeWhile P s @ ?d" by simp
  have "rev ?d = takeWhile P (rev ?d) @ dropWhile P (rev ?d)" by simp
  then have "rev (rev ?d) = rev (takeWhile P (rev ?d) @ dropWhile P (rev ?d))" by simp
  then have 2: "?d = rev (dropWhile P (rev ?d)) @ rev (takeWhile P (rev ?d))"
    by (simp only: rev_rev_ident rev_append)
  from 1 2 show ?thesis by metis
qed

lemma strip_gen_ends:
  assumes "t = rev (dropWhile P (rev (dropWhile P s)))" "t \<noteq> []"
  shows "\<not> P (hd t) \<and> \<not> P (last t)"
proof -
  let ?d = "dropWhile P s"
  let ?w = "dropWhile P (rev ?d)"
  from assms have w: "?w \<noteq> []" by auto
  then have "\<not> P (hd ?w)" by (metis hd_dropWhile)
  then have l: "\<not> P (last t)" using assms w by (simp add: last_rev)
  have d: "?d \<noteq> []"
  proof
    assume "?d = []"
    then have "?w = []" by (simp only: rev.simps dropWhile.simps)
    with w show False by simp
  qed
  then have nd: "\<not> P (hd ?d)" by (metis hd_dropWhile)
  have "last ?w = last (rev ?d)"
    using w by (metis takeWhile_dropWhile_id last_appendR)
  then have "hd t = hd ?d" using assms d w by (simp add: hd_rev last_rev)
  with nd l show ?thesis by simp
qed

lemma strip_gen_fix:
  assumes "s = [] \<or> (\<not> P (hd s) \<and> \<not> P (last s))"
  shows "rev (dropWhile P (rev (dropWhile P s))) = s"
proof (cases "s = []")
  case True then show ?thesis by simp
next
  case False
  with assms have h: "\<not> P (hd s)" and l: "\<not> P (last s)" by auto
  from False h have 1: "dropWhile P s = s" by (cases s) auto
  from False l have "dropWhile P (rev s) = rev s" by (cases "rev s") (auto simp: hd_rev[symmetric])
  with 1 show ?thesis by simp
qed


subsection \<open>Substitution\<close>

lemma sub_class_filter: "sub_class (\<lambda>c. \<not> P c) [] s = filter P s"
  by (induction s) (auto simp: sub_class_def)

lemma collapse_inrun: "collapse P rep True s = collapse P rep False (dropWhile P s)"
  by (induction s) auto

lemma sub_runs_collapse: "sub_runs P rep s = collapse P rep False s"
  by (induction P rep s rule: sub_runs.induct) (auto simp: collapse_inrun)

lemma sub_repeats_collapse:
  "sub_repeats x [x] s = collapse (\<lambda>c. c = x) [x] False s"
  by (induction x "[x]" s rule: sub_repeats.induct) (auto simp: collapse_inrun)

lemma collapse_none: "\<forall>c\<in>set s. \<not> P c \<Longrightarrow> collapse P rep b s = s"
  by (induction s arbitrary: b) auto

lemma set_collapse: "set (collapse P rep b s) \<subseteq> {c \<in> set s. \<not> P c} \<union> set rep"
  by (induction s arbitrary: b) auto

lemma no_rep_fix: "no_rep x s \<Longrightarrow> sub_repeats x rep s = s"
  by (induction x rep s rule: sub_repeats.induct) auto

lemma no_rep_append: "no_rep x (a @ b) \<Longrightarrow> no_rep x a \<and> no_rep x b"
proof (induction x a rule: no_rep.induct)
  case (1 x) then show ?case by simp
next
  case (2 x c) then show ?case by (cases b) auto
next
  case (3 x c d cs) then show ?case by auto
qed

lemma no_rep_collapse:
  "no_rep x (collapse (\<lambda>c. c = x) [x] b s) \<and>
   (b \<longrightarrow> collapse (\<lambda>c. c = x) [x] b s = [] \<or> hd (collapse (\<lambda>c. c = x) [x] b s) \<noteq> x)"
proof (induction s arbitrary: b)
  case Nil then show ?case by simp
next
  case (Cons c cs)
  show ?case
  proof (cases "c = x")
    case True
    with Cons[of True] show ?thesis
      by (cases "collapse (\<lambda>c. c = x) [x] True cs") auto
  next
    case False
    with Cons[of False] show ?thesis
      by (cases "collapse (\<lambda>c. c = x) [x] False cs") auto
  qed
qed


subsection \<open>Refinement, fallback and idempotence\<close>

lemma strip_lower: "strip (lower s) = lower (strip s)"
proof -
  have c: "py_isspace \<circ> py_lower = py_isspace"
    by (rule ext) (simp add: py_isspace_lower)
  show ?thesis
    by (simp add: strip_def lower_def dropWhile_map rev_map c)
qed

lemma slugify_refines: "slugify s = slugify_spec s"
  by (simp add: slugify_def slugify_spec_def Let_def strip_lower sub_class_filter
      sub_runs_collapse sub_repeats_collapse)

lemma safe_segment_refines: "safe_segment s = safe_segment_spec s"
  by (simp add: safe_segment_def safe_segment_spec_def Let_def sub_class_filter
      sub_runs_collapse)

lemma slugify_nonempty: "slugify s \<noteq> []"
  by (simp add: slugify_def Let_def)

lemma safe_segment_nonempty: "safe_segment s \<noteq> []"
  by (simp add: safe_segment_def Let_def)

lemma slug_char_hyphen: "slug_char (CHR ''-'')"
  by (simp add: slug_char_def slug_keep_def py_isspace_def py_isupper_def)

lemma slugify_fix:
  assumes chars: "\<forall>c\<in>set t. slug_char c" and rep: "no_rep (CHR ''-'') t"
    and ends: "hd t \<noteq> CHR ''-'' \<and> last t \<noteq> CHR ''-''" and ne: "t \<noteq> []"
  shows "slugify t = t"
proof -
  from chars have nospace: "\<forall>c\<in>set t. \<not> py_isspace c" by (simp add: slug_char_def)
  have 1: "strip t = t" by (simp add: strip_def dropWhile_none nospace)
  from chars have "\<forall>c\<in>set t. py_lower c = c" by (simp add: slug_char_def py_lower_fix)
  then have 2: "lower t = t" by (simp add: lower_def map_idI)
  from chars have 3: "filter slug_keep t = t" by (simp add: slug_char_def)
  from chars have 4: "collapse (\<lambda>c. py_isspace c \<or> c = CHR ''_'') ''-'' False t = t"
    by (intro collapse_none) (simp add: slug_char_def)
  from rep have 5: "sub_repeats (CHR ''-'') ''-'' t = t" by (rule no_rep_fix)
  have 6: "strip_chars ''-'' t = t"
    unfolding strip_chars_def using ends by (intro strip_gen_fix) simp
  show ?thesis
    by (simp add: slugify_def Let_def 1 2 3 4 5 6 sub_class_filter sub_runs_collapse ne)
qed

lemma slugify_idem: "slugify (slugify s) = slugify s"
proof -
  define s1 where "s1 = lower (strip s)"
  define s2 where "s2 = filter slug_keep s1"
  define s3 where "s3 = collapse (\<lambda>c. py_isspace c \<or> c = CHR ''_'') ''-'' False s2"
  define s4 where "s4 = collapse (\<lambda>c. c = CHR ''-'') ''-'' False s3"
  define t where "t = strip_chars ''-'' s4"
  have out: "slugify s = (if t = [] then ''note'' else t)"
    by (simp add: slugify_def Let_def sub_class_filter sub_runs_collapse sub_repeats_collapse
        s1_def s2_def s3_def s4_def t_def)
  have "\<forall>c\<in>set s1. \<not> py_isupper c"
    by (simp add: s1_def lower_def py_lower_not_upper)
  then have c2: "\<forall>c\<in>set s2. slug_keep c \<and> \<not> py_isupper c" by (simp add: s2_def)
  have c3: "\<forall>c\<in>set s3. slug_char c"
  proof
    fix c assume "c \<in> set s3"
    then have "c \<in> {c \<in> set s2. \<not> (py_isspace c \<or> c = CHR ''_'')} \<union> set ''-''"
      unfolding s3_def using set_collapse by blast
    with c2 show "slug_char c" using slug_char_hyphen by (auto simp: slug_char_def)
  qed
  have c4: "\<forall>c\<in>set s4. slug_char c"
  proof
    fix c assume "c \<in> set s4"
    then have "c \<in> {c \<in> set s3. \<not> (c = CHR ''-'')} \<union> set ''-''"
      unfolding s4_def using set_collapse by blast
    with c3 show "slug_char c" using slug_char_hyphen by auto
  qed
  have r4: "no_rep (CHR ''-'') s4"
    unfolding s4_def using no_rep_collapse[of "CHR ''-''" False s3] by simp
  obtain a b where ab: "s4 = a @ t @ b"
    unfolding t_def strip_chars_def using strip_gen_sublist by blast
  from c4 ab have ct: "\<forall>c\<in>set t. slug_char c" by auto
  from r4 ab have rt: "no_rep (CHR ''-'') t" by (metis no_rep_append)
  show ?thesis
  proof (cases "t = []")
    case True
    have "slugify ''note'' = ''note''" by code_simp
    with True out show ?thesis by simp
  next
    case False
    have "\<not> (hd t \<in> set ''-'') \<and> \<not> (last t \<in> set ''-'')"
      using False by (intro strip_gen_ends[where s = s4]) (simp_all add: t_def strip_chars_def)
    then have "hd t \<noteq> CHR ''-'' \<and> last t \<noteq> CHR ''-''" by simp
    with ct rt False have "slugify t = t" by (intro slugify_fix) simp_all
    with False out show ?thesis by simp
  qed
qed

lemma safe_segment_idem: "safe_segment (safe_segment s) = safe_segment s"
proof -
  define t where "t = collapse py_isspace ''_'' False (filter slug_keep (strip s))"
  have out: "safe_segment s = (if t = [] then ''unknown'' else t)"
    by (simp add: safe_segment_def Let_def sub_class_filter sub_runs_collapse t_def)
  have ct: "\<forall>c\<in>set t. slug_keep c \<and> \<not> py_isspace c"
  proof
    fix c assume "c \<in> set t"
    then have "c \<in> {c \<in> set (filter slug_keep (strip s)). \<not> py_isspace c} \<union> set ''_''"
      unfolding t_def using set_collapse by blast
    then show "slug_keep c \<and> \<not> py_isspace c"
      by (auto simp: slug_keep_def word_char_def py_isspace_def)
  qed
  show ?thesis
  proof (cases "t = []")
    case True
    have "safe_segment ''unknown'' = ''unknown''" by code_simp
    with True out show ?thesis by simp
  next
    case False
    from ct have 1: "strip t = t" by (simp add: strip_def dropWhile_none)
    from ct have 2: "filter slug_keep t = t" by simp
    from ct have 3: "collapse py_isspace ''_'' False t = t" by (intro collapse_none) simp
    have "safe_segment t = t"
      by (simp add: safe_segment_def Let_def sub_class_filter sub_runs_collapse 1 2 3 False)
    with False out show ?thesis by simp
  qed
qed


lemma slugify_shape:
  "slugify s \<noteq> [] \<and> hd (slugify s) \<noteq> CHR ''-'' \<and> last (slugify s) \<noteq> CHR ''-'' \<and>
   no_rep (CHR ''-'') (slugify s) \<and> (\<forall>c\<in>set (slugify s). slug_char c)"
proof -
  define s1 where "s1 = lower (strip s)"
  define s2 where "s2 = filter slug_keep s1"
  define s3 where "s3 = collapse (\<lambda>c. py_isspace c \<or> c = CHR ''_'') ''-'' False s2"
  define s4 where "s4 = collapse (\<lambda>c. c = CHR ''-'') ''-'' False s3"
  define t where "t = strip_chars ''-'' s4"
  have out: "slugify s = (if t = [] then ''note'' else t)"
    by (simp add: slugify_def Let_def sub_class_filter sub_runs_collapse sub_repeats_collapse
        s1_def s2_def s3_def s4_def t_def)
  have "\<forall>c\<in>set s1. \<not> py_isupper c"
    by (simp add: s1_def lower_def py_lower_not_upper)
  then have c2: "\<forall>c\<in>set s2. slug_keep c \<and> \<not> py_isupper c" by (simp add: s2_def)
  have c3: "\<forall>c\<in>set s3. slug_char c"
  proof
    fix c assume "c \<in> set s3"
    then have "c \<in> {c \<in> set s2. \<not> (py_isspace c \<or> c = CHR ''_'')} \<union> set ''-''"
      unfolding s3_def using set_collapse by blast
    with c2 show "slug_char c" using slug_char_hyphen by (auto simp: slug_char_def)
  qed
  have c4: "\<forall>c\<in>set s4. slug_char c"
  proof
    fix c assume "c \<in> set s4"
    then have "c \<in> {c \<in> set s3. \<not> (c = CHR ''-'')} \<union> set ''-''"
      unfolding s4_def using set_collapse by blast
    with c3 show "slug_char c" using slug_char_hyphen by auto
  qed
  have r4: "no_rep (CHR ''-'') s4"
    unfolding s4_def using no_rep_collapse[of "CHR ''-''" False s3] by simp
  obtain a b where ab: "s4 = a @ t @ b"
    unfolding t_def strip_chars_def using strip_gen_sublist by blast
  from c4 ab have ct: "\<forall>c\<in>set t. slug_char c" by auto
  from r4 ab have rt: "no_rep (CHR ''-'') t" by (metis no_rep_append)
  show ?thesis
  proof (cases "t = []")
    case True
    have "\<forall>c\<in>set ''note''. slug_char c"
      by (simp add: slug_char_def slug_keep_def word_char_def py_isalnum_def py_isspace_def
          py_isupper_def)
    with True out show ?thesis by simp
  next
    case False
    have "\<not> (hd t \<in> set ''-'') \<and> \<not> (last t \<in> set ''-'')"
      using False by (intro strip_gen_ends[where s = s4]) (simp_all add: t_def strip_chars_def)
    then have "hd t \<noteq> CHR ''-'' \<and> last t \<noteq> CHR ''-''" by simp
    with ct rt False out show ?thesis by simp
  qed
qed

lemma no_rep_nth:
  "no_rep x t \<Longrightarrow> Suc i < length t \<Longrightarrow> \<not> (t ! i = x \<and> t ! Suc i = x)"
proof (induction x t arbitrary: i rule: no_rep.induct)
  case (1 x) then show ?case by simp
next
  case (2 x c) then show ?case by simp
next
  case (3 x c d cs)
  show ?case
  proof (cases i)
    case 0
    with 3 show ?thesis by auto
  next
    case (Suc k)
    with 3 show ?thesis by auto
  qed
qed

text \<open>
  C7. For every string, \<open>slugify\<close> lowercases, strips, removes the characters that are
  neither word characters, whitespace nor hyphens, turns each run of whitespace and
  underscores into one hyphen, turns repeated hyphens into one, trims the hyphens at
  both ends, and returns \<open>note\<close> when nothing is left: it is the function
  \<open>slugify_spec\<close>. Its result is never empty, has no hyphen at either end and no two
  hyphens in a row, and is made of hyphens and of word characters that are neither
  uppercase nor the underscore. The title \<open>C++ & Friends!\<close> becomes \<open>c-friends\<close>, and
  \<open>--A__b - c--\<close> becomes \<open>a-b-c\<close>.
\<close>

theorem slugify_meets_spec:
  "slugify s = slugify_spec s \<and>
   slugify s \<noteq> [] \<and> hd (slugify s) \<noteq> CHR ''-'' \<and> last (slugify s) \<noteq> CHR ''-'' \<and>
   (\<forall>i. Suc i < length (slugify s) \<longrightarrow>
      \<not> (slugify s ! i = CHR ''-'' \<and> slugify s ! Suc i = CHR ''-'')) \<and>
   (\<forall>c\<in>set (slugify s).
      (word_char c \<or> c = CHR ''-'') \<and> \<not> py_isspace c \<and> c \<noteq> CHR ''_'' \<and> \<not> py_isupper c) \<and>
   slugify ''C++ & Friends!'' = ''c-friends'' \<and>
   slugify ''--A__b - c--'' = ''a-b-c''"
proof -
  have 1: "slugify ''C++ & Friends!'' = ''c-friends''" by code_simp
  have 2: "slugify ''--A__b - c--'' = ''a-b-c''" by code_simp
  note sh = slugify_shape[of s]
  from sh have 3: "slugify s \<noteq> []" and 4: "hd (slugify s) \<noteq> CHR ''-''"
    and 5: "last (slugify s) \<noteq> CHR ''-''" and r: "no_rep (CHR ''-'') (slugify s)"
    and c: "\<forall>c\<in>set (slugify s). slug_char c" by blast+
  have 6: "\<forall>i. Suc i < length (slugify s) \<longrightarrow>
      \<not> (slugify s ! i = CHR ''-'' \<and> slugify s ! Suc i = CHR ''-'')"
    using no_rep_nth[OF r] by blast
  have 7: "\<forall>c\<in>set (slugify s).
      (word_char c \<or> c = CHR ''-'') \<and> \<not> py_isspace c \<and> c \<noteq> CHR ''_'' \<and> \<not> py_isupper c"
  proof
    fix x assume "x \<in> set (slugify s)"
    with c have "slug_char x" by blast
    then show "(word_char x \<or> x = CHR ''-'') \<and> \<not> py_isspace x \<and> x \<noteq> CHR ''_'' \<and>
        \<not> py_isupper x"
      by (auto simp: slug_char_def slug_keep_def)
  qed
  from slugify_refines[of s] 3 4 5 6 7 1 2 show ?thesis by (intro conjI)
qed

theorem slugify_meets_spec_witness:
  "slugify ''  Hello,  World_2 -- x '' = slugify_spec ''  Hello,  World_2 -- x '' \<and>
   slugify_spec ''  Hello,  World_2 -- x '' = ''hello-world-2-x'' \<and>
   slugify ''- a -'' = ''a'' \<and> hd (slugify ''- a -'') \<noteq> CHR ''-'' \<and>
   last (slugify ''- a -'') \<noteq> CHR ''-'' \<and> word_char (CHR ''a'')"
proof -
  have 1: "slugify_spec ''  Hello,  World_2 -- x '' = ''hello-world-2-x''" by code_simp
  have 2: "slugify ''- a -'' = ''a''" by code_simp
  note a = slugify_meets_spec [of "''  Hello,  World_2 -- x ''", THEN conjunct1]
  note b = slugify_meets_spec [of "''- a -''", THEN conjunct2, THEN conjunct2]
  from b have 3: "hd (slugify ''- a -'') \<noteq> CHR ''-''" by (rule conjunct1)
  from b have 4: "last (slugify ''- a -'') \<noteq> CHR ''-''" by (rule conjunct1[OF conjunct2])
  from b have 5: "\<forall>c\<in>set (slugify ''- a -'').
      (word_char c \<or> c = CHR ''-'') \<and> \<not> py_isspace c \<and> c \<noteq> CHR ''_'' \<and> \<not> py_isupper c"
    by (rule conjunct1[OF conjunct2[OF conjunct2[OF conjunct2]]])
  from 5 have 6: "word_char (CHR ''a'')" by (simp add: 2)
  from a 1 2 3 4 6 show ?thesis by (intro conjI)
qed

text \<open>
  C8. For every string, \<open>safe_segment\<close> strips, removes the characters that are neither
  word characters, whitespace nor hyphens, turns each run of whitespace into one
  underscore, and returns \<open>unknown\<close> when nothing is left (it is the function
  \<open>safe_segment_spec\<close>); its result is never the empty string.
\<close>

theorem safe_segment_meets_spec:
  "safe_segment s = safe_segment_spec s \<and> safe_segment s \<noteq> []"
  by (rule conjI [OF safe_segment_refines safe_segment_nonempty])

theorem safe_segment_meets_spec_witness:
  "safe_segment '' Linear   Algebra (I) '' = safe_segment_spec '' Linear   Algebra (I) '' \<and>
   safe_segment '' Linear   Algebra (I) '' = ''Linear_Algebra_I'' \<and>
   safe_segment ''?!'' = ''unknown''"
proof -
  have "safe_segment '' Linear   Algebra (I) '' = ''Linear_Algebra_I''" by code_simp
  moreover have "safe_segment ''?!'' = ''unknown''" by code_simp
  ultimately show ?thesis
    using safe_segment_meets_spec [of "'' Linear   Algebra (I) ''"] by simp
qed

text \<open>
  C9. Both sanitizers are idempotent: sanitizing a sanitized string changes nothing.
\<close>

theorem sanitizers_idempotent:
  "slugify (slugify s) = slugify s \<and> safe_segment (safe_segment s) = safe_segment s"
  by (simp add: slugify_idem safe_segment_idem)

theorem sanitizers_idempotent_witness:
  "slugify ''A  b_c!'' = ''a-b-c'' \<and> slugify (slugify ''A  b_c!'') = ''a-b-c'' \<and>
   safe_segment ''A  b_c!'' = ''A_b_c'' \<and> safe_segment (safe_segment ''A  b_c!'') = ''A_b_c''"
proof -
  have "slugify ''A  b_c!'' = ''a-b-c''" by code_simp
  moreover have "safe_segment ''A  b_c!'' = ''A_b_c''" by code_simp
  ultimately show ?thesis using sanitizers_idempotent [of "''A  b_c!''"] by simp
qed

section \<open>Properties of grouping and navigation\<close>

lemma map_of_dict_set: "map_of (dict_set d k v) = (map_of d)(k \<mapsto> v)"
  by (induction d k v rule: dict_set.induct) (auto simp: fun_eq_iff)

lemma keys_dict_set:
  "keys (dict_set d k v) = (if k \<in> set (keys d) then keys d else keys d @ [k])"
  by (induction d k v rule: dict_set.induct) (auto simp: keys_def)

lemma distinct_keys_dict_set: "distinct (keys d) \<Longrightarrow> distinct (keys (dict_set d k v))"
  by (simp add: keys_dict_set)

lemma set_keys_dict_set: "set (keys (dict_set d k v)) = insert k (set (keys d))"
  by (auto simp: keys_dict_set)

lemma map_of_keys: "map_of d k = None \<longleftrightarrow> k \<notin> set (keys d)"
  by (simp add: keys_def map_of_eq_None_iff)

lemma tree_ok_empty: "tree_ok [] []"
  by (simp add: tree_ok_def keys_def)

lemma courses_ok_other:
  "courses_ok notes t cs \<Longrightarrow> topic n \<noteq> t \<Longrightarrow> courses_ok (notes @ [n]) t cs"
  by (auto simp: courses_ok_def group_of_def)

lemma courses_ok_add:
  assumes "courses_ok notes (topic n) cs"
  shows "courses_ok (notes @ [n]) (topic n)
           (dict_set cs (course n)
              ((case map_of cs (course n) of None \<Rightarrow> [] | Some ns \<Rightarrow> ns) @ [n]))"
proof -
  let ?g = "case map_of cs (course n) of None \<Rightarrow> [] | Some ns \<Rightarrow> ns"
  have g: "?g = group_of notes (topic n) (course n)"
  proof (cases "map_of cs (course n)")
    case None
    then have "course n \<notin> set (keys cs)" by (simp add: map_of_keys)
    with assms have "course n \<notin> course ` {m \<in> set notes. topic m = topic n}"
      by (simp add: courses_ok_def)
    then have "\<forall>m\<in>set notes. \<not> (topic m = topic n \<and> course m = course n)"
      by (auto simp: image_iff)
    then have "group_of notes (topic n) (course n) = []"
      by (simp add: group_of_def)
    with None show ?thesis by simp
  next
    case (Some ns)
    with assms show ?thesis by (simp add: courses_ok_def)
  qed
  show ?thesis
    unfolding courses_ok_def
  proof (intro conjI allI impI)
    show "distinct (keys (dict_set cs (course n) (?g @ [n])))"
      using assms by (simp add: courses_ok_def distinct_keys_dict_set)
    show "set (keys (dict_set cs (course n) (?g @ [n]))) =
          course ` {m \<in> set (notes @ [n]). topic m = topic n}"
      using assms by (auto simp: courses_ok_def set_keys_dict_set)
    fix c ns
    assume "map_of (dict_set cs (course n) (?g @ [n])) c = Some ns"
    then show "ns = group_of (notes @ [n]) (topic n) c"
      using assms g by (auto simp: map_of_dict_set courses_ok_def group_of_def split: if_splits)
  qed
qed

lemma courses_ok_new: "topic n \<notin> topic ` set notes \<Longrightarrow> courses_ok notes (topic n) []"
proof -
  assume "topic n \<notin> topic ` set notes"
  then have "{m \<in> set notes. topic m = topic n} = {}" by (auto simp: image_iff)
  then show ?thesis by (simp add: courses_ok_def keys_def)
qed

lemma tree_ok_add:
  assumes "tree_ok notes tr"
  shows "tree_ok (notes @ [n]) (tree_add tr n)"
proof -
  let ?cs = "case map_of tr (topic n) of None \<Rightarrow> [] | Some cs \<Rightarrow> cs"
  have cs: "courses_ok notes (topic n) ?cs"
  proof (cases "map_of tr (topic n)")
    case None
    then have "topic n \<notin> set (keys tr)" by (simp add: map_of_keys)
    with assms have "topic n \<notin> topic ` set notes" by (simp add: tree_ok_def)
    with None show ?thesis by (simp add: courses_ok_new)
  next
    case (Some cs)
    with assms show ?thesis by (simp add: tree_ok_def)
  qed
  note new = courses_ok_add[OF cs]
  show ?thesis
    unfolding tree_ok_def tree_add_def Let_def
  proof (intro conjI allI impI)
    show "distinct (keys (dict_set tr (topic n) (dict_set ?cs (course n)
            ((case map_of ?cs (course n) of None \<Rightarrow> [] | Some ns \<Rightarrow> ns) @ [n]))))"
      using assms by (simp add: tree_ok_def distinct_keys_dict_set)
    show "set (keys (dict_set tr (topic n) (dict_set ?cs (course n)
            ((case map_of ?cs (course n) of None \<Rightarrow> [] | Some ns \<Rightarrow> ns) @ [n])))) =
          topic ` set (notes @ [n])"
      using assms by (auto simp: tree_ok_def set_keys_dict_set)
    fix t cs'
    assume "map_of (dict_set tr (topic n) (dict_set ?cs (course n)
            ((case map_of ?cs (course n) of None \<Rightarrow> [] | Some ns \<Rightarrow> ns) @ [n]))) t = Some cs'"
    then show "courses_ok (notes @ [n]) t cs'"
      using assms new
      by (auto simp: map_of_dict_set tree_ok_def courses_ok_other split: if_splits)
  qed
qed

lemma foldl_tree_ok:
  "tree_ok seen tr \<Longrightarrow> tree_ok (seen @ ns) (foldl tree_add tr ns)"
proof (induction ns arbitrary: seen tr)
  case Nil then show ?case by simp
next
  case (Cons n ns)
  from Cons.prems have "tree_ok (seen @ [n]) (tree_add tr n)" by (rule tree_ok_add)
  from Cons.IH[OF this] show ?case by simp
qed

lemma build_tree_ok: "tree_ok ns (build_tree ns)"
  using foldl_tree_ok[OF tree_ok_empty, of ns] by (simp add: build_tree_def)

lemma each_Inr: "\<forall>x\<in>set xs. f x = Inr (g x) \<Longrightarrow> each f xs = Inr (map g xs)"
  by (induction xs) auto

lemma sort_keys_unique:
  "distinct ks \<Longrightarrow> set ks = set xs \<Longrightarrow> sort ks = sort (remdups xs)"
  by (intro sorted_distinct_set_unique) auto

lemma keys_sort_groups: "keys (sort_groups tr) = keys tr"
  by (induction tr) (auto simp: sort_groups_def keys_def)

lemma map_of_sort_groups:
  "map_of (sort_groups tr) t =
     map_option (map (\<lambda>(c, ns). (c, py_sorted note_key False ns))) (map_of tr t)"
  by (induction tr) (auto simp: sort_groups_def)

lemma keys_sorted_courses:
  "keys (map (\<lambda>(c, ns). (c, py_sorted note_key False ns)) cs) = keys cs"
  by (induction cs) (auto simp: keys_def)

lemma map_of_sorted_courses:
  "map_of (map (\<lambda>(c, ns). (c, py_sorted note_key False ns)) cs) c =
     map_option (py_sorted note_key False) (map_of cs c)"
  by (induction cs) auto

lemma map_of_in_keys: "k \<in> set (keys d) \<Longrightarrow> \<exists>v. map_of d k = Some v"
  using map_of_keys[of d k] by auto

lemma course_section_ok:
  assumes "courses_ok notes t cs" "c \<in> set (keys cs)"
  shows "course_section (map (\<lambda>(c, ns). (c, py_sorted note_key False ns)) cs) c =
         Inr (Section (label c) (map note_link (nav_group notes t c)))"
proof -
  from assms(2) obtain ns where ns: "map_of cs c = Some ns" using map_of_in_keys by fastforce
  with assms(1) have "ns = group_of notes t c" by (simp add: courses_ok_def)
  with ns show ?thesis
    unfolding course_section_def map_of_sorted_courses
    by (simp add: label_def nav_group_def py_sorted_def)
qed

lemma topic_section_ok:
  assumes "tree_ok notes tr" "t \<in> set (keys tr)"
  shows "topic_section (sort_groups tr) t =
         Inr (Section (label t)
            (map (\<lambda>c. Section (label c) (map note_link (nav_group notes t c)))
               (nav_courses notes t)))"
proof -
  from assms(2) obtain cs where cs: "map_of tr t = Some cs" using map_of_in_keys by fastforce
  with assms(1) have ok: "courses_ok notes t cs" by (simp add: tree_ok_def)
  let ?cs = "map (\<lambda>(c, ns). (c, py_sorted note_key False ns)) cs"
  have k: "sort (keys ?cs) = nav_courses notes t"
    unfolding keys_sorted_courses nav_courses_def
    using ok by (intro sort_keys_unique) (auto simp: courses_ok_def)
  have "each (course_section ?cs) (sort (keys cs)) =
        Inr (map (\<lambda>c. Section (label c) (map note_link (nav_group notes t c))) (sort (keys cs)))"
    by (intro each_Inr) (simp add: course_section_ok[OF ok])
  with k cs show ?thesis
    by (simp add: topic_section_def map_of_sort_groups keys_sorted_courses label_def)
qed

lemma generate_quarto_yml_spec:
  assumes "ns \<noteq> []"
  shows "generate_quarto_yml ns = Inr (navigation_spec ns)"
proof -
  let ?tr = "build_tree ns"
  have ok: "tree_ok ns ?tr" by (rule build_tree_ok)
  then have "set (keys ?tr) = topic ` set ns" by (simp add: tree_ok_def)
  with assms have ne: "?tr \<noteq> []" by (auto simp: keys_def)
  then have ne': "sort_groups ?tr \<noteq> []" by (simp add: sort_groups_def)
  have k: "sort (keys (sort_groups ?tr)) = nav_topics ns"
    unfolding keys_sort_groups nav_topics_def
    using ok by (intro sort_keys_unique) (auto simp: tree_ok_def)
  have "each (topic_section (sort_groups ?tr)) (sort (keys ?tr)) =
        Inr (map (\<lambda>t. Section (label t)
            (map (\<lambda>c. Section (label c) (map note_link (nav_group ns t c)))
               (nav_courses ns t))) (sort (keys ?tr)))"
    by (intro each_Inr) (simp add: topic_section_ok[OF ok])
  with k ne' show ?thesis
    by (simp add: generate_quarto_yml_def Let_def keys_sort_groups navigation_spec_def)
qed

lemma generate_quarto_yml_empty:
  "generate_quarto_yml [] = Inl (UnboundLocalError ''sidebar_contents'')"
  by (simp add: generate_quarto_yml_def build_tree_def sort_groups_def keys_def)

subsection \<open>Every note in one group\<close>

lemma mset_filter_disj:
  "\<forall>x\<in>set xs. \<not> (P x \<and> Q x) \<Longrightarrow>
   mset (filter P xs) + mset (filter Q xs) = mset (filter (\<lambda>x. P x \<or> Q x) xs)"
  by (induction xs) auto

lemma mset_partition:
  "distinct ks \<Longrightarrow>
   (\<Sum>k\<leftarrow>ks. mset (filter (\<lambda>x. f x = k) xs)) = mset (filter (\<lambda>x. f x \<in> set ks) xs)"
proof (induction ks)
  case Nil then show ?case by simp
next
  case (Cons k ks)
  then have "\<forall>x\<in>set xs. \<not> (f x = k \<and> f x \<in> set ks)" by auto
  from mset_filter_disj[OF this] Cons show ?case by simp
qed

lemma mset_partition_all:
  "distinct ks \<Longrightarrow> f ` set xs \<subseteq> set ks \<Longrightarrow>
   (\<Sum>k\<leftarrow>ks. mset (filter (\<lambda>x. f x = k) xs)) = mset xs"
proof -
  assume d: "distinct ks" and s: "f ` set xs \<subseteq> set ks"
  then have "filter (\<lambda>x. f x \<in> set ks) xs = xs" by (auto simp: filter_id_conv)
  with mset_partition[OF d, of f xs] show ?thesis by simp
qed

lemma mset_concat_map: "mset (concat (map g ks)) = (\<Sum>k\<leftarrow>ks. mset (g k))"
  by (induction ks) auto

lemma nav_topics_props:
  "sorted (nav_topics ns) \<and> distinct (nav_topics ns) \<and> set (nav_topics ns) = topic ` set ns"
  by (simp add: nav_topics_def)

lemma nav_courses_props:
  "sorted (nav_courses ns t) \<and> distinct (nav_courses ns t) \<and>
   set (nav_courses ns t) = course ` {n \<in> set ns. topic n = t}"
  by (auto simp: nav_courses_def)

lemma mset_nav_group: "mset (nav_group ns t c) = mset (group_of ns t c)"
  by (simp add: nav_group_def)

lemma image_mset_sum_list:
  "image_mset f (\<Sum>k\<leftarrow>ks. g k) = (\<Sum>k\<leftarrow>ks. image_mset f (g k))"
  by (induction ks) auto

lemma leaves_links: "concat (map leaves (map note_link xs)) = map note_link xs"
  by (induction xs) (auto simp: note_link_def)

lemma leaves_links_comp: "concat (map (leaves \<circ> note_link) xs) = map note_link xs"
  using leaves_links[of xs] by simp

lemma group_of_nested:
  "group_of ns t c = filter (\<lambda>n. course n = c) (filter (\<lambda>n. topic n = t) ns)"
  by (simp add: group_of_def conj_commute)

lemma mset_groups_of_topic:
  assumes "distinct cs" "course ` {n \<in> set ns. topic n = t} \<subseteq> set cs"
  shows "(\<Sum>c\<leftarrow>cs. mset (group_of ns t c)) = mset (filter (\<lambda>n. topic n = t) ns)"
proof -
  from assms(2) have "course ` set (filter (\<lambda>n. topic n = t) ns) \<subseteq> set cs" by auto
  from mset_partition_all[OF assms(1) this] show ?thesis by (simp add: group_of_nested)
qed

lemma mset_concat_images:
  "mset (concat (map (\<lambda>c. map h (G c)) cs)) = (\<Sum>c\<leftarrow>cs. image_mset h (mset (G c)))"
  by (induction cs) auto

lemma leaves_sections:
  "concat (map leaves (map (\<lambda>c. Section (L c) (map note_link (G c))) cs)) =
   concat (map (\<lambda>c. map note_link (G c)) cs)"
  by (induction cs) (auto simp: leaves_links_comp)

lemma leaves_topic:
  "mset (concat (map leaves
      (map (\<lambda>c. Section (label c) (map note_link (nav_group ns t c))) (nav_courses ns t)))) =
   image_mset note_link (mset (filter (\<lambda>n. topic n = t) ns))"
proof -
  have "mset (concat (map leaves
      (map (\<lambda>c. Section (label c) (map note_link (nav_group ns t c))) (nav_courses ns t)))) =
      (\<Sum>c\<leftarrow>nav_courses ns t. image_mset note_link (mset (group_of ns t c)))"
    unfolding leaves_sections mset_concat_images by (simp add: mset_nav_group)
  also have "\<dots> = image_mset note_link (\<Sum>c\<leftarrow>nav_courses ns t. mset (group_of ns t c))"
    by (simp add: image_mset_sum_list)
  also have "\<dots> = image_mset note_link (mset (filter (\<lambda>n. topic n = t) ns))"
    using nav_courses_props[of ns t] by (simp add: mset_groups_of_topic)
  finally show ?thesis .
qed

lemma leaves_navigation:
  "mset (concat (map leaves (tl (navigation_spec ns)))) = image_mset note_link (mset ns)"
proof -
  have "mset (concat (map leaves (tl (navigation_spec ns)))) =
        (\<Sum>t\<leftarrow>nav_topics ns. image_mset note_link (mset (filter (\<lambda>n. topic n = t) ns)))"
  proof -
    have gen: "mset (concat (map leaves (map (\<lambda>t. Section (L t) (F t)) ts))) =
          (\<Sum>t\<leftarrow>ts. mset (concat (map leaves (F t))))"
      for L :: "string \<Rightarrow> string" and F :: "string \<Rightarrow> item list" and ts
      by (induction ts) auto
    show ?thesis
      unfolding navigation_spec_def list.sel by (subst gen) (simp only: leaves_topic)
  qed
  also have "\<dots> = image_mset note_link (\<Sum>t\<leftarrow>nav_topics ns. mset (filter (\<lambda>n. topic n = t) ns))"
    by (simp add: image_mset_sum_list)
  also have "\<dots> = image_mset note_link (mset ns)"
  proof -
    have "(\<Sum>t\<leftarrow>nav_topics ns. mset (filter (\<lambda>n. topic n = t) ns)) = mset ns"
      using nav_topics_props[of ns] by (intro mset_partition_all) simp_all
    then show ?thesis by (simp only:)
  qed
  finally show ?thesis .
qed

lemma groups_Cons:
  "groups ((t, cs) # tr) = map (\<lambda>(c, g). ((t, c), g)) cs @ groups tr"
  by (simp add: groups_def)

lemma in_groups:
  "((t, c), g) \<in> set (groups tr) \<longleftrightarrow> (\<exists>cs. (t, cs) \<in> set tr \<and> (c, g) \<in> set cs)"
  by (induction tr) (auto simp: groups_def)

lemma map_of_distinct_keys:
  "distinct (keys d) \<Longrightarrow> (k, v) \<in> set d \<longleftrightarrow> map_of d k = Some v"
  by (auto simp: keys_def)

lemma distinct_groups:
  "distinct (keys tr) \<Longrightarrow> (\<forall>(t, cs) \<in> set tr. distinct (keys cs)) \<Longrightarrow>
   distinct (map fst (groups tr))"
proof (induction tr)
  case Nil then show ?case by (simp add: groups_def)
next
  case (Cons p tr)
  obtain t cs where p: "p = (t, cs)" by (cases p)
  from Cons.prems have dk: "distinct (keys cs)" and t: "t \<notin> set (keys tr)"
    by (auto simp: p keys_def)
  have 1: "map fst (map (\<lambda>(c, g). ((t, c), g)) cs) = map (\<lambda>c. (t, c)) (keys cs)"
    by (induction cs) (auto simp: keys_def)
  have 2: "distinct (map (\<lambda>c. (t, c)) (keys cs))"
    using dk by (simp add: distinct_map inj_on_def)
  have 3: "fst ` set (groups tr) \<subseteq> {(t', c). t' \<in> set (keys tr)}"
    by (force simp: in_groups keys_def)
  from Cons have 4: "distinct (map fst (groups tr))" by (simp add: keys_def)
  from t 3 have 5: "set (map (\<lambda>c. (t, c)) (keys cs)) \<inter> fst ` set (groups tr) = {}" by auto
  show ?case unfolding p groups_Cons using 1 2 4 5 by (simp add: )
qed

lemma mset_groups:
  "mset (concat (map snd (groups tr))) =
   (\<Sum>(t, cs)\<leftarrow>tr. \<Sum>(c, g)\<leftarrow>cs. mset g)"
proof (induction tr)
  case Nil then show ?case by (simp add: groups_def)
next
  case (Cons p tr)
  obtain t cs where p: "p = (t, cs)" by (cases p)
  have "mset (concat (map snd (map (\<lambda>(c, g). ((t, c), g)) cs))) = (\<Sum>(c, g)\<leftarrow>cs. mset g)"
    by (induction cs) auto
  with Cons show ?case unfolding p groups_Cons by simp
qed

lemma sum_courses:
  assumes "courses_ok ns t cs"
  shows "(\<Sum>(c, g)\<leftarrow>cs. mset g) = mset (filter (\<lambda>n. topic n = t) ns)"
proof -
  from assms have d: "distinct (keys cs)" by (simp add: courses_ok_def)
  have "(c, g) \<in> set cs \<Longrightarrow> g = group_of ns t c" for c g
    using assms map_of_distinct_keys[OF d] by (simp add: courses_ok_def)
  then have "map (\<lambda>(c, g). mset g) cs = map (\<lambda>c. mset (group_of ns t c)) (keys cs)"
    by (auto simp: keys_def)
  then have "(\<Sum>(c, g)\<leftarrow>cs. mset g) = (\<Sum>c\<leftarrow>keys cs. mset (group_of ns t c))" by simp
  also have "\<dots> = mset (filter (\<lambda>n. topic n = t) ns)"
    using assms d by (intro mset_groups_of_topic) (simp_all add: courses_ok_def)
  finally show ?thesis .
qed

lemma sum_tree:
  assumes "tree_ok ns tr"
  shows "(\<Sum>(t, cs)\<leftarrow>tr. \<Sum>(c, g)\<leftarrow>cs. mset g) = mset ns"
proof -
  from assms have d: "distinct (keys tr)" by (simp add: tree_ok_def)
  have "(t, cs) \<in> set tr \<Longrightarrow> courses_ok ns t cs" for t cs
    using assms map_of_distinct_keys[OF d] by (simp add: tree_ok_def)
  then have "\<forall>p\<in>set tr. (case p of (t, cs) \<Rightarrow> \<Sum>(c, g)\<leftarrow>cs. mset g) =
               mset (filter (\<lambda>n. topic n = fst p) ns)"
    using sum_courses by fastforce
  then have "map (\<lambda>(t, cs). \<Sum>(c, g)\<leftarrow>cs. mset g) tr =
             map (\<lambda>t. mset (filter (\<lambda>n. topic n = t) ns)) (keys tr)"
    by (simp add: keys_def)
  then have "(\<Sum>(t, cs)\<leftarrow>tr. \<Sum>(c, g)\<leftarrow>cs. mset g) =
             (\<Sum>t\<leftarrow>keys tr. mset (filter (\<lambda>n. topic n = t) ns))" by simp
  also have "\<dots> = mset ns"
    using assms d by (intro mset_partition_all) (simp_all add: tree_ok_def)
  finally show ?thesis .
qed

lemma groups_build_tree:
  "distinct (map fst (groups (build_tree ns))) \<and>
   mset (concat (map snd (groups (build_tree ns)))) = mset ns \<and>
   (\<forall>t c g. ((t, c), g) \<in> set (groups (build_tree ns)) \<longrightarrow> g = group_of ns t c) \<and>
   (\<forall>n\<in>set ns. \<exists>g. ((topic n, course n), g) \<in> set (groups (build_tree ns)))"
proof -
  let ?tr = "build_tree ns"
  have ok: "tree_ok ns ?tr" by (rule build_tree_ok)
  then have d: "distinct (keys ?tr)" by (simp add: tree_ok_def)
  have cs: "(t, cs) \<in> set ?tr \<Longrightarrow> courses_ok ns t cs" for t cs
    using ok map_of_distinct_keys[OF d] by (simp add: tree_ok_def)
  have 1: "distinct (map fst (groups ?tr))"
    using d cs by (intro distinct_groups) (auto simp: courses_ok_def)
  have 2: "mset (concat (map snd (groups ?tr))) = mset ns"
    by (simp add: mset_groups sum_tree[OF ok])
  have 3: "g = group_of ns t c" if "((t, c), g) \<in> set (groups ?tr)" for t c g
  proof -
    from that obtain cs where a: "(t, cs) \<in> set ?tr" and b: "(c, g) \<in> set cs"
      by (auto simp: in_groups)
    from cs[OF a] have ok': "courses_ok ns t cs" .
    then have "distinct (keys cs)" by (simp add: courses_ok_def)
    from map_of_distinct_keys[OF this] b ok' show ?thesis by (simp add: courses_ok_def)
  qed
  have 4: "\<exists>g. ((topic n, course n), g) \<in> set (groups ?tr)" if "n \<in> set ns" for n
  proof -
    from that ok have "topic n \<in> set (keys ?tr)" by (simp add: tree_ok_def)
    then obtain cs where a: "(topic n, cs) \<in> set ?tr" by (auto simp: keys_def)
    from cs[OF a] that have "course n \<in> set (keys cs)" by (auto simp: courses_ok_def)
    then obtain g where "(course n, g) \<in> set cs" by (auto simp: keys_def)
    with a show ?thesis by (auto simp: in_groups)
  qed
  from 1 2 3 4 show ?thesis by blast
qed

lemma sorted_adjacent:
  "sorted (map f xs) \<Longrightarrow> Suc i < length xs \<Longrightarrow> f (xs ! i) \<le> f (xs ! Suc i)"
  using sorted_nth_mono[of "map f xs" i "Suc i"] by simp

lemma nav_group_sorted: "sorted (map note_key (nav_group ns t c))"
  by (simp add: nav_group_def)



section \<open>A registry of three notes\<close>

lemma registry_example:
  "build_notes_index staged_files = Inr [intro_math, intro_physics, newton]"
  by code_simp

section \<open>Properties of the program\<close>

lemma note_of_short:
  "length (path p) < 3 \<Longrightarrow> note_of p = Inl (SystemExit 1 (Expected_layout (path p)))"
  by (simp add: note_of_def infer_topic_course_def die_def)

lemma note_of_long: "3 \<le> length (path p) \<Longrightarrow> \<exists>n. note_of p = Inr n"
  by (simp add: note_of_def infer_topic_course_def Let_def)

lemma index_loop_length:
  "index_loop acc fs = Inr ns \<Longrightarrow> length ns = length acc + length fs"
proof (induction fs arbitrary: acc)
  case Nil then show ?case by simp
next
  case (Cons p fs)
  then show ?case by (cases "note_of p") (auto dest: Cons.IH)
qed

lemma build_notes_index_length:
  "build_notes_index fs = Inr ns \<Longrightarrow> length ns = length fs"
  using index_loop_length[of "[]" fs ns] by (simp add: build_notes_index_def)

lemma index_loop_short:
  "\<exists>p\<in>set fs. length (path p) < 3 \<Longrightarrow>
   \<exists>p\<in>set fs. length (path p) < 3 \<and>
     index_loop acc fs = Inl (SystemExit 1 (Expected_layout (path p)))"
proof (induction fs arbitrary: acc)
  case Nil then show ?case by simp
next
  case (Cons p fs)
  show ?case
  proof (cases "length (path p) < 3")
    case True
    then show ?thesis by (simp add: note_of_short)
  next
    case False
    then obtain n where n: "note_of p = Inr n" using note_of_long[of p] by auto
    from False Cons.prems have "\<exists>q\<in>set fs. length (path q) < 3" by auto
    from Cons.IH[OF this, of "acc @ [n]"] n show ?thesis by auto
  qed
qed

lemma tex_to_qmd_abort: "tex_to_qmd e n = (Some a, w) \<Longrightarrow> \<exists>c m. a = SystemExit c m"
  by (auto simp: tex_to_qmd_def die_def split: sum.splits)

lemma notes_loop_abort: "notes_loop e ns = (Some a, es) \<Longrightarrow> \<exists>c m. a = SystemExit c m"
proof (induction ns arbitrary: es)
  case Nil then show ?case by simp
next
  case (Cons n ns)
  then show ?case
    by (auto split: prod.splits option.splits dest: tex_to_qmd_abort)
qed

lemma main_no_exception: "fst (main e) \<noteq> Some (Exception x)"
proof (cases "\<not> pandoc_found e \<or> \<not> staging_exists e \<or> staged e = []")
  case True
  then show ?thesis by (auto simp: main_def die_def)
next
  case False
  show ?thesis
  proof (cases "build_notes_index (staged e)")
    case (Inl a)
    from False have "\<exists>p. p \<in> set (staged e)" by (cases "staged e") auto
    show ?thesis
    proof (cases "\<exists>p\<in>set (staged e). length (path p) < 3")
      case True
      from index_loop_short[OF this, of "[]"] Inl False show ?thesis
        by (auto simp: main_def build_notes_index_def)
    next
      case F: False
      have "\<exists>ns. index_loop acc fs = Inr ns" if "\<forall>p\<in>set fs. 3 \<le> length (path p)" for acc fs
        using that
      proof (induction fs arbitrary: acc)
        case Nil then show ?case by simp
      next
        case (Cons p fs)
        then obtain n where "note_of p = Inr n" using note_of_long[of p] by auto
        with Cons show ?case by auto
      qed
      from this[of "staged e" "[]"] F Inl show ?thesis
        by (auto simp: build_notes_index_def not_less)
    qed
  next
    case (Inr ns)
    from build_notes_index_length[OF this] False have ne: "ns \<noteq> []" by auto
    from generate_quarto_yml_spec[OF ne] have g: "generate_quarto_yml ns = Inr (navigation_spec ns)" .
    obtain r es where l: "notes_loop e ns = (r, es)" by (cases "notes_loop e ns")
    show ?thesis
    proof (cases r)
      case None
      with False Inr g l show ?thesis by (simp add: main_def)
    next
      case (Some a)
      with l notes_loop_abort obtain c m where "a = SystemExit c m" by blast
      with False Inr l Some show ?thesis by (simp add: main_def)
    qed
  qed
qed

lemma main_short_path:
  assumes "\<exists>p\<in>set (staged e). length (path p) < 3"
  shows "\<exists>code msg. main e = (Some (SystemExit code msg), []) \<and> code \<noteq> 0"
    and "pandoc_found e \<Longrightarrow> staging_exists e \<Longrightarrow>
         \<exists>p\<in>set (staged e). length (path p) < 3 \<and>
           main e = (Some (SystemExit 1 (Expected_layout (path p))), [])"
proof -
  from assms have ne: "staged e \<noteq> []" by auto
  from index_loop_short[OF assms, of "[]"] obtain p where
    p: "p \<in> set (staged e)" "length (path p) < 3"
       "build_notes_index (staged e) = Inl (SystemExit 1 (Expected_layout (path p)))"
    by (auto simp: build_notes_index_def)
  show "\<exists>code msg. main e = (Some (SystemExit code msg), []) \<and> code \<noteq> 0"
    using ne p(3) by (simp add: main_def die_def)
  show "\<exists>p\<in>set (staged e). length (path p) < 3 \<and>
           main e = (Some (SystemExit 1 (Expected_layout (path p))), [])"
    if "pandoc_found e" "staging_exists e"
    using that ne p by (auto simp: main_def)
qed



section \<open>Properties of the order of notes\<close>

lemma py_sorted_mset: "mset (py_sorted f r xs) = mset xs"
  by (simp add: py_sorted_def)

lemma py_sorted_stable:
  "filter (\<lambda>x. f x = k) (py_sorted f r xs) = filter (\<lambda>x. f x = k) xs"
proof (cases r)
  case False then show ?thesis by (simp add: py_sorted_def sort_key_stable)
next
  case True
  have "filter (\<lambda>x. f x = k) (rev (sort_key f (rev xs))) =
        rev (filter (\<lambda>x. f x = k) (sort_key f (rev xs)))" by (simp add: rev_filter)
  also have "\<dots> = rev (filter (\<lambda>x. f x = k) (rev xs))" by (simp only: sort_key_stable)
  also have "\<dots> = filter (\<lambda>x. f x = k) xs" by (simp add: rev_filter)
  finally show ?thesis using True by (simp add: py_sorted_def)
qed

lemma py_sorted_descending: "sorted (rev (map f (py_sorted f True xs)))"
  by (simp add: py_sorted_def rev_map)

lemma py_sorted_ascending: "sorted (map f (py_sorted f False xs))"
  by (simp add: py_sorted_def)

lemma descending_nth:
  assumes "sorted (rev ks)" "i < j" "j < length ks"
  shows "ks ! j \<le> (ks ! i :: 'k :: linorder)"
proof -
  let ?n = "length ks"
  have "rev ks ! (?n - Suc j) \<le> rev ks ! (?n - Suc i)"
    using assms by (intro sorted_nth_mono) auto
  with assms show ?thesis by (simp add: rev_nth)
qed

lemma py_sorted_distinct_keys:
  assumes "distinct (map f xs)"
  shows "py_sorted f True xs = rev (sort_key f xs)"
proof -
  from assms have "inj_on f (set xs)" by (simp add: distinct_map)
  then have "inj_on f (set (rev xs))" by simp
  moreover have "mset (rev xs) = mset (sort_key f xs)" by simp
  moreover have "sorted (map f (sort_key f xs))" by simp
  ultimately have "sort_key f (rev xs) = sort_key f xs"
    by (intro sort_key_inj_key_eq)
  then show ?thesis by (simp add: py_sorted_def)
qed

lemma key_less_of_date:
  "parse_note_date (date a) < parse_note_date (date b) \<Longrightarrow> note_key a < note_key b"
  by (simp add: note_key_def less_prod_def)

lemma length_write_homepage: "length (write_homepage ns) = min 30 (length ns)"
  by (simp add: write_homepage_def notes_sorted_def py_sorted_def min.commute)

lemma undated_after_dated:
  assumes i: "i < length (notes_sorted ns)" and j: "j < length (notes_sorted ns)"
    and u: "parse_note_date (date (notes_sorted ns ! i)) = date_min"
    and d: "date_min < parse_note_date (date (notes_sorted ns ! j))"
  shows "j < i"
proof (rule ccontr)
  assume "\<not> j < i"
  moreover from u d have "i \<noteq> j" by auto
  ultimately have lt: "i < j" by simp
  let ?ks = "map note_key (notes_sorted ns)"
  have "sorted (rev ?ks)" unfolding notes_sorted_def by (rule py_sorted_descending)
  from descending_nth[OF this lt] j have "?ks ! j \<le> ?ks ! i" by simp
  with i j have "note_key (notes_sorted ns ! j) \<le> note_key (notes_sorted ns ! i)" by simp
  moreover from u d have "note_key (notes_sorted ns ! i) < note_key (notes_sorted ns ! j)"
    by (intro key_less_of_date) simp
  ultimately show False by simp
qed




section \<open>The claims about navigation\<close>

lemma nav_group_member:
  "n \<in> set (nav_group ns t c) \<longleftrightarrow> n \<in> set ns \<and> topic n = t \<and> course n = c"
  by (auto simp: nav_group_def group_of_def)

lemma nav_group_count:
  "n \<in> set ns \<Longrightarrow>
   count (mset (nav_group ns (topic n) (course n))) n = count (mset ns) n"
  by (simp add: nav_group_def group_of_def)

text \<open>
  C2. For a registry that is not empty, the sidebar that is written is the \<open>Home\<close> link
  followed by one section for each topic, the topics in ascending order of their
  sanitized names; each holds one section for each course of the topic, in ascending
  order of the sanitized names; each of these lists the notes of its group, and any
  two notes next to each other there have their sort keys (parsed date, lowercase
  title) in ascending order.
\<close>

theorem navigation_order:
  assumes "ns \<noteq> []"
  shows "generate_quarto_yml ns = Inr (navigation_spec ns) \<and>
    hd (navigation_spec ns) = Link ''Home'' ''index.qmd'' \<and>
    sorted (nav_topics ns) \<and> distinct (nav_topics ns) \<and>
    set (nav_topics ns) = topic ` set ns \<and>
    (\<forall>t. sorted (nav_courses ns t) \<and> distinct (nav_courses ns t) \<and>
         set (nav_courses ns t) = course ` {n \<in> set ns. topic n = t}) \<and>
    (\<forall>t c. mset (nav_group ns t c) = mset (group_of ns t c) \<and>
       (\<forall>i. Suc i < length (nav_group ns t c) \<longrightarrow>
          note_key (nav_group ns t c ! i) \<le> note_key (nav_group ns t c ! Suc i)))"
proof -
  have 1: "generate_quarto_yml ns = Inr (navigation_spec ns)"
    using assms by (rule generate_quarto_yml_spec)
  have 2: "hd (navigation_spec ns) = Link ''Home'' ''index.qmd''"
    by (simp add: navigation_spec_def)
  have 3: "\<forall>t c. mset (nav_group ns t c) = mset (group_of ns t c) \<and>
       (\<forall>i. Suc i < length (nav_group ns t c) \<longrightarrow>
          note_key (nav_group ns t c ! i) \<le> note_key (nav_group ns t c ! Suc i))"
    using sorted_adjacent[OF nav_group_sorted] by (simp add: mset_nav_group)
  from 1 2 3 nav_topics_props[of ns] nav_courses_props[of ns] show ?thesis by simp
qed

theorem navigation_order_witness:
  "[intro_math, intro_physics, newton] \<noteq> [] \<and>
   navigation_spec [intro_math, intro_physics, newton] =
     [Link ''Home'' ''index.qmd'',
      Section ''math'' [Section ''linear algebra''
        [Link ''Intro'' ''notes/math/linear_algebra/intro.qmd'']],
      Section ''physics'' [Section ''mechanics''
        [Link ''Intro'' ''notes/physics/mechanics/intro.qmd'',
         Link ''Newton's Laws'' ''notes/physics/mechanics/newtons-laws.qmd'']]]"
proof -
  have "generate_quarto_yml [intro_math, intro_physics, newton] =
     Inr [Link ''Home'' ''index.qmd'',
      Section ''math'' [Section ''linear algebra''
        [Link ''Intro'' ''notes/math/linear_algebra/intro.qmd'']],
      Section ''physics'' [Section ''mechanics''
        [Link ''Intro'' ''notes/physics/mechanics/intro.qmd'',
         Link ''Newton's Laws'' ''notes/physics/mechanics/newtons-laws.qmd'']]]"
    by code_simp
  with navigation_order [of "[intro_math, intro_physics, newton]"] show ?thesis by simp
qed

text \<open>
  C4. For a registry that is not empty the navigation is written without an exception:
  it is the \<open>Home\<close> link and then, for each topic, one section that holds, for each
  course of the topic, one section whose links are the links of the notes with that
  topic and that course, and of no other. Each topic has one section, each course of
  a topic one section below it, a note is linked below the section of its own topic
  and course only, as often as it is in the registry, and the leaves below \<open>Home\<close> are
  the links of the notes, each once. The same holds of the groups that the loop
  builds: their keys are distinct, together they hold the notes of the registry, and
  a note is in a group exactly when the group has its topic and course. Nothing here
  depends on the dates or titles of the notes.
\<close>

theorem grouping_lossless:
  "(ns \<noteq> [] \<longrightarrow>
      generate_quarto_yml ns =
        Inr (Link ''Home'' ''index.qmd'' #
             map (\<lambda>t. Section (label t)
                    (map (\<lambda>c. Section (label c) (map note_link (nav_group ns t c)))
                       (nav_courses ns t)))
               (nav_topics ns)) \<and>
      (\<exists>items. generate_quarto_yml ns = Inr (Link ''Home'' ''index.qmd'' # items) \<and>
         mset (concat (map leaves items)) = image_mset note_link (mset ns))) \<and>
   distinct (nav_topics ns) \<and> set (nav_topics ns) = topic ` set ns \<and>
   (\<forall>t. distinct (nav_courses ns t) \<and>
        set (nav_courses ns t) = course ` {n \<in> set ns. topic n = t}) \<and>
   (\<forall>t c. mset (nav_group ns t c) = mset (filter (\<lambda>n. topic n = t \<and> course n = c) ns)) \<and>
   (\<forall>n\<in>set ns. \<forall>t c. n \<in> set (nav_group ns t c) \<longleftrightarrow> t = topic n \<and> c = course n) \<and>
   (\<forall>n\<in>set ns. topic n \<in> set (nav_topics ns) \<and>
        course n \<in> set (nav_courses ns (topic n)) \<and>
        count (mset (nav_group ns (topic n) (course n))) n = count (mset ns) n) \<and>
   distinct (map fst (groups (build_tree ns))) \<and>
   mset (concat (map snd (groups (build_tree ns)))) = mset ns \<and>
   (\<forall>n\<in>set ns. \<forall>t c g. ((t, c), g) \<in> set (groups (build_tree ns)) \<longrightarrow>
      (n \<in> set g \<longleftrightarrow> t = topic n \<and> c = course n)) \<and>
   (\<forall>n\<in>set ns. \<exists>g. ((topic n, course n), g) \<in> set (groups (build_tree ns)))"
proof -
  have a: "generate_quarto_yml ns =
        Inr (Link ''Home'' ''index.qmd'' #
             map (\<lambda>t. Section (label t)
                    (map (\<lambda>c. Section (label c) (map note_link (nav_group ns t c)))
                       (nav_courses ns t)))
               (nav_topics ns)) \<and>
      (\<exists>items. generate_quarto_yml ns = Inr (Link ''Home'' ''index.qmd'' # items) \<and>
         mset (concat (map leaves items)) = image_mset note_link (mset ns))" if "ns \<noteq> []"
  proof -
    have "navigation_spec ns = Link ''Home'' ''index.qmd'' # tl (navigation_spec ns)"
      by (simp add: navigation_spec_def)
    with generate_quarto_yml_spec[OF that] leaves_navigation[of ns]
    have "\<exists>items. generate_quarto_yml ns = Inr (Link ''Home'' ''index.qmd'' # items) \<and>
         mset (concat (map leaves items)) = image_mset note_link (mset ns)" by metis
    with generate_quarto_yml_spec[OF that] show ?thesis
      by (simp add: navigation_spec_def)
  qed
  have b: "n \<in> set g \<longleftrightarrow> t = topic n \<and> c = course n"
    if "n \<in> set ns" "((t, c), g) \<in> set (groups (build_tree ns))" for n t c g
  proof -
    from that(2) groups_build_tree[of ns] have "g = group_of ns t c" by blast
    with that(1) show ?thesis by (auto simp: group_of_def)
  qed
  have c: "distinct (nav_topics ns) \<and> set (nav_topics ns) = topic ` set ns"
    using nav_topics_props[of ns] by simp
  have d: "\<forall>t. distinct (nav_courses ns t) \<and>
        set (nav_courses ns t) = course ` {n \<in> set ns. topic n = t}"
    using nav_courses_props[of ns] by simp
  have e: "\<forall>t c. mset (nav_group ns t c) = mset (filter (\<lambda>n. topic n = t \<and> course n = c) ns)"
    by (simp add: nav_group_def group_of_def)
  have f: "\<forall>n\<in>set ns. \<forall>t c. n \<in> set (nav_group ns t c) \<longleftrightarrow> t = topic n \<and> c = course n"
    by (auto simp: nav_group_member)
  have g: "\<forall>n\<in>set ns. topic n \<in> set (nav_topics ns) \<and>
        course n \<in> set (nav_courses ns (topic n)) \<and>
        count (mset (nav_group ns (topic n) (course n))) n = count (mset ns) n"
    using c d by (auto simp: nav_group_count)
  have h: "\<forall>n\<in>set ns. \<forall>t c g. ((t, c), g) \<in> set (groups (build_tree ns)) \<longrightarrow>
      (n \<in> set g \<longleftrightarrow> t = topic n \<and> c = course n)"
    using b by blast
  from a have a': "ns \<noteq> [] \<longrightarrow>
      generate_quarto_yml ns =
        Inr (Link ''Home'' ''index.qmd'' #
             map (\<lambda>t. Section (label t)
                    (map (\<lambda>c. Section (label c) (map note_link (nav_group ns t c)))
                       (nav_courses ns t)))
               (nav_topics ns)) \<and>
      (\<exists>items. generate_quarto_yml ns = Inr (Link ''Home'' ''index.qmd'' # items) \<and>
         mset (concat (map leaves items)) = image_mset note_link (mset ns))" by blast
  from groups_build_tree[of ns] have
    i: "distinct (map fst (groups (build_tree ns)))" and
    j: "mset (concat (map snd (groups (build_tree ns)))) = mset ns" and
    k: "\<forall>n\<in>set ns. \<exists>g. ((topic n, course n), g) \<in> set (groups (build_tree ns))"
    by blast+
  from c have c1: "distinct (nav_topics ns)" and c2: "set (nav_topics ns) = topic ` set ns"
    by blast+
  from a' c1 c2 d e f g i j h k show ?thesis by (intro conjI)
qed

theorem grouping_lossless_witness:
  "[newton, intro_math, intro_physics] \<noteq> [] \<and>
   Link ''Home'' ''index.qmd'' #
     map (\<lambda>t. Section (label t)
            (map (\<lambda>c. Section (label c)
                   (map note_link (nav_group [newton, intro_math, intro_physics] t c)))
               (nav_courses [newton, intro_math, intro_physics] t)))
       (nav_topics [newton, intro_math, intro_physics]) =
     [Link ''Home'' ''index.qmd'',
      Section ''math'' [Section ''linear algebra''
        [Link ''Intro'' ''notes/math/linear_algebra/intro.qmd'']],
      Section ''physics'' [Section ''mechanics''
        [Link ''Intro'' ''notes/physics/mechanics/intro.qmd'',
         Link ''Newton's Laws'' ''notes/physics/mechanics/newtons-laws.qmd'']]] \<and>
   groups (build_tree [newton, intro_math, intro_physics]) =
     [((''physics'', ''mechanics''), [newton, intro_physics]),
      ((''math'', ''linear_algebra''), [intro_math])] \<and>
   mset (concat (map snd (groups (build_tree [newton, intro_math, intro_physics])))) =
     mset [newton, intro_math, intro_physics]"
proof -
  let ?ns = "[newton, intro_math, intro_physics]"
  have 0: "?ns \<noteq> []" by simp
  have 1: "generate_quarto_yml ?ns =
     Inr [Link ''Home'' ''index.qmd'',
      Section ''math'' [Section ''linear algebra''
        [Link ''Intro'' ''notes/math/linear_algebra/intro.qmd'']],
      Section ''physics'' [Section ''mechanics''
        [Link ''Intro'' ''notes/physics/mechanics/intro.qmd'',
         Link ''Newton's Laws'' ''notes/physics/mechanics/newtons-laws.qmd'']]]"
    by code_simp
  have 2: "groups (build_tree ?ns) =
     [((''physics'', ''mechanics''), [newton, intro_physics]),
      ((''math'', ''linear_algebra''), [intro_math])]" by code_simp
  note t = grouping_lossless [of ?ns]
  from t[THEN conjunct1] 0 have "generate_quarto_yml ?ns =
        Inr (Link ''Home'' ''index.qmd'' #
             map (\<lambda>t. Section (label t)
                    (map (\<lambda>c. Section (label c) (map note_link (nav_group ?ns t c)))
                       (nav_courses ?ns t)))
               (nav_topics ?ns))" by blast
  with 1 have 3: "Link ''Home'' ''index.qmd'' #
             map (\<lambda>t. Section (label t)
                    (map (\<lambda>c. Section (label c) (map note_link (nav_group ?ns t c)))
                       (nav_courses ?ns t)))
               (nav_topics ?ns) = [Link ''Home'' ''index.qmd'',
      Section ''math'' [Section ''linear algebra''
        [Link ''Intro'' ''notes/math/linear_algebra/intro.qmd'']],
      Section ''physics'' [Section ''mechanics''
        [Link ''Intro'' ''notes/physics/mechanics/intro.qmd'',
         Link ''Newton's Laws'' ''notes/physics/mechanics/newtons-laws.qmd'']]]"
    by (simp only: sum.inject)
  from t have 4: "mset (concat (map snd (groups (build_tree ?ns)))) = mset ?ns" by blast
  from 0 3 2 4 show ?thesis by (intro conjI)
qed

section \<open>The claims about the program\<close>

text \<open>
  C6. A path with fewer than three components below the staging directory is fatal:
  \<open>infer_topic_course\<close> leaves with exit code 1 and the message that names the path, and
  the program, when one of its files has such a path, ends with a nonzero exit code and
  a message and has written nothing. For a path of three components or more the result
  is the pair of the first two components as they are.
\<close>

theorem short_path_is_fatal:
  "(length parts < 3 \<longrightarrow>
      infer_topic_course parts = Inl (SystemExit 1 (Expected_layout parts))) \<and>
   (3 \<le> length parts \<longrightarrow> infer_topic_course parts = Inr (parts ! 0, parts ! 1)) \<and>
   ((\<exists>p\<in>set (staged e). length (path p) < 3) \<longrightarrow>
      (\<exists>code msg. main e = (Some (SystemExit code msg), []) \<and> code \<noteq> 0)) \<and>
   (pandoc_found e \<and> staging_exists e \<and> (\<exists>p\<in>set (staged e). length (path p) < 3) \<longrightarrow>
      (\<exists>p\<in>set (staged e). length (path p) < 3 \<and>
         main e = (Some (SystemExit 1 (Expected_layout (path p))), [])))"
  using main_short_path[of e] by (simp add: infer_topic_course_def die_def)

theorem short_path_is_fatal_witness:
  "length [''physics'', ''newton.tex''] < 3 \<and>
   infer_topic_course [''physics'', ''newton.tex''] =
     Inl (SystemExit 1 (Expected_layout [''physics'', ''newton.tex''])) \<and>
   infer_topic_course [''physics'', ''mechanics'', ''newton.tex''] =
     Inr (''physics'', ''mechanics'') \<and>
   main (example_env [\<lparr>path = [''physics'', ''newton.tex''], source_text = ''Forces.''\<rparr>]) =
     (Some (SystemExit 1 (Expected_layout [''physics'', ''newton.tex''])), [])"
proof -
  let ?e = "example_env [\<lparr>path = [''physics'', ''newton.tex''], source_text = ''Forces.''\<rparr>]"
  have 1: "main ?e = (Some (SystemExit 1 (Expected_layout [''physics'', ''newton.tex''])), [])"
    by code_simp
  have 2: "infer_topic_course [''physics'', ''mechanics'', ''newton.tex''] =
     Inr (''physics'', ''mechanics'')"
    using short_path_is_fatal [of "[''physics'', ''mechanics'', ''newton.tex'']" ?e] by simp
  from short_path_is_fatal [of "[''physics'', ''newton.tex'']" ?e] 1 2 show ?thesis by simp
qed

text \<open>
  C10. With no notes \<open>generate_quarto_yml\<close> raises the error of an unbound local name
  (\<open>sidebar_contents\<close>) and writes nothing; with at least one note it does not. The
  program never meets the error: without source files it has left before, and the
  registry of a nonempty list of files is not empty.
\<close>

theorem navigation_needs_notes:
  "generate_quarto_yml [] = Inl (UnboundLocalError ''sidebar_contents'') \<and>
   (ns \<noteq> [] \<longrightarrow> (\<exists>items. generate_quarto_yml ns = Inr items)) \<and>
   (pandoc_found e \<and> staging_exists e \<and> staged e = [] \<longrightarrow>
      main e = (Some (SystemExit 1 No_tex_files), [])) \<and>
   (staged e \<noteq> [] \<and> build_notes_index (staged e) = Inr ns \<longrightarrow> ns \<noteq> []) \<and>
   (\<forall>x. fst (main e) \<noteq> Some (Exception x))"
proof -
  have 1: "ns \<noteq> [] \<longrightarrow> (\<exists>items. generate_quarto_yml ns = Inr items)"
    using generate_quarto_yml_spec[of ns] by simp
  have 2: "pandoc_found e \<and> staging_exists e \<and> staged e = [] \<longrightarrow>
      main e = (Some (SystemExit 1 No_tex_files), [])"
    by (simp add: main_def die_def)
  have 3: "staged e \<noteq> [] \<and> build_notes_index (staged e) = Inr ns \<longrightarrow> ns \<noteq> []"
    using build_notes_index_length[of "staged e" ns] by auto
  have 4: "\<forall>x. fst (main e) \<noteq> Some (Exception x)"
    by (simp add: main_no_exception)
  from generate_quarto_yml_empty 1 2 3 4 show ?thesis by (intro conjI)
qed

theorem navigation_needs_notes_witness:
  "staged (example_env []) = [] \<and>
   main (example_env []) = (Some (SystemExit 1 No_tex_files), []) \<and>
   staged (example_env staged_files) \<noteq> [] \<and>
   build_notes_index (staged (example_env staged_files)) =
     Inr [intro_math, intro_physics, newton] \<and>
   (\<exists>items. generate_quarto_yml [intro_math, intro_physics, newton] = Inr items) \<and>
   fst (main (example_env staged_files)) \<noteq> Some (Exception (UnboundLocalError ''sidebar_contents''))"
proof -
  have 1: "pandoc_found (example_env []) \<and> staging_exists (example_env []) \<and>
           staged (example_env []) = []" by (simp add: example_env_def)
  have 2: "staged (example_env staged_files) = staged_files" by (simp add: example_env_def)
  have 3: "staged_files \<noteq> []" by (simp add: staged_files_def)
  from navigation_needs_notes [of "[intro_math, intro_physics, newton]" "example_env []"] 1
  have a: "main (example_env []) = (Some (SystemExit 1 No_tex_files), [])" by blast
  from navigation_needs_notes [of "[intro_math, intro_physics, newton]" "example_env staged_files"]
  have b: "\<exists>items. generate_quarto_yml [intro_math, intro_physics, newton] = Inr items" and
    c: "fst (main (example_env staged_files)) \<noteq> Some (Exception (UnboundLocalError ''sidebar_contents''))"
    by simp_all
  from 1 2 3 a b c registry_example show ?thesis by simp
qed

section \<open>The claim about the homepage\<close>

text \<open>
  C1, as the program has it. The homepage lists the first 30 notes of the registry
  sorted by descending key (parsed date, lowercase title); notes with equal keys keep
  the order of the registry. When no two notes have the same key this is the reverse
  of the ascending sort. The list has \<open>min 30 n\<close> items for \<open>n\<close> notes, and a note whose
  date is missing or does not parse comes after every note whose date parses to a day
  later than the earliest one.
\<close>

theorem homepage_listing:
  "write_homepage ns = map homepage_entry (take 30 (notes_sorted ns)) \<and>
   mset (notes_sorted ns) = mset ns \<and>
   (\<forall>i j. i < j \<and> j < length ns \<longrightarrow>
      note_key (notes_sorted ns ! j) \<le> note_key (notes_sorted ns ! i)) \<and>
   (\<forall>k. filter (\<lambda>n. note_key n = k) (notes_sorted ns) = filter (\<lambda>n. note_key n = k) ns) \<and>
   (distinct (map note_key ns) \<longrightarrow>
      write_homepage ns = map homepage_entry (take 30 (rev (sort_key note_key ns)))) \<and>
   length (write_homepage ns) = min 30 (length ns) \<and>
   (\<forall>i j. i < length (write_homepage ns) \<and> j < length (write_homepage ns) \<and>
      parse_note_date (date (notes_sorted ns ! i)) = date_min \<and>
      date_min < parse_note_date (date (notes_sorted ns ! j)) \<longrightarrow> j < i)"
proof -
  have len: "length (notes_sorted ns) = length ns"
    by (simp add: notes_sorted_def py_sorted_def)
  have 1: "write_homepage ns = map homepage_entry (take 30 (notes_sorted ns))"
    by (simp add: write_homepage_def)
  have 2: "mset (notes_sorted ns) = mset ns"
    by (simp add: notes_sorted_def py_sorted_mset)
  have 3: "note_key (notes_sorted ns ! j) \<le> note_key (notes_sorted ns ! i)"
    if "i < j" "j < length ns" for i j
  proof -
    have "sorted (rev (map note_key (notes_sorted ns)))"
      unfolding notes_sorted_def by (rule py_sorted_descending)
    from descending_nth[OF this that(1)] that len show ?thesis by simp
  qed
  have 4: "filter (\<lambda>n. note_key n = k) (notes_sorted ns) = filter (\<lambda>n. note_key n = k) ns"
    for k unfolding notes_sorted_def by (rule py_sorted_stable)
  have 5: "write_homepage ns = map homepage_entry (take 30 (rev (sort_key note_key ns)))"
    if "distinct (map note_key ns)"
    using py_sorted_distinct_keys[OF that] by (simp add: write_homepage_def notes_sorted_def)
  have 6: "j < i"
    if "i < length (write_homepage ns)" "j < length (write_homepage ns)"
       "parse_note_date (date (notes_sorted ns ! i)) = date_min"
       "date_min < parse_note_date (date (notes_sorted ns ! j))" for i j
    using that len by (intro undated_after_dated[of i ns j]) (simp_all add: length_write_homepage)
  from 1 2 3 4 5 6 length_write_homepage[of ns] show ?thesis by blast
qed

theorem homepage_listing_witness:
  "distinct (map note_key [intro_math, newton]) \<and>
   write_homepage [intro_math, newton] = [homepage_entry newton, homepage_entry intro_math] \<and>
   parse_note_date (date intro_math) = date_min \<and>
   date_min < parse_note_date (date newton)"
proof -
  have 1: "distinct (map note_key [intro_math, newton])" by code_simp
  have 2: "rev (sort_key note_key [intro_math, newton]) = [newton, intro_math]" by code_simp
  have 3: "parse_note_date (date intro_math) = date_min" by code_simp
  have 4: "date_min < parse_note_date (date newton)" by code_simp
  from homepage_listing [of "[intro_math, newton]"] 1
  have "write_homepage [intro_math, newton] =
        map homepage_entry (take 30 (rev (sort_key note_key [intro_math, newton])))" by blast
  with 1 2 3 4 show ?thesis by simp
qed

text \<open>
  The reverse of the ascending sort is not what is listed when two notes have the same
  key: two notes without a date and with the same title stay in the order of the
  registry. And a note without a date comes before a note dated 0001-01-01 when its
  title is the greater one.
\<close>

theorem homepage_reverse_counterexample:
  "write_homepage [intro_math, intro_physics] \<noteq>
     map homepage_entry (take 30 (rev (sort_key note_key [intro_math, intro_physics]))) \<and>
   date intro_physics = None \<and>
   write_homepage [first_day, intro_physics] =
     [homepage_entry intro_physics, homepage_entry first_day]"
  by code_simp

section \<open>Properties of date parsing\<close>









section \<open>Properties of metadata extraction\<close>

lemma strip_idem: "strip (strip s) = strip s"
proof -
  define t where "t = strip s"
  have "t = [] \<or> (\<not> py_isspace (hd t) \<and> \<not> py_isspace (last t))"
    using strip_gen_ends[of t py_isspace s] by (auto simp: t_def strip_def)
  then have "rev (dropWhile py_isspace (rev (dropWhile py_isspace t))) = t"
    by (rule strip_gen_fix)
  then have "strip t = t" by (simp only: strip_def)
  then show ?thesis by (simp only: t_def)
qed

lemma key_char_not_space: "key_char c \<Longrightarrow> \<not> py_isspace c"
  by (auto simp: key_char_def in_range_def py_isspace_def less_eq_char_def)

lemma key_char_word: "key_char c \<Longrightarrow> word_char c \<or> c = CHR ''-''"
  by (auto simp: key_char_def in_range_def word_char_def py_isalnum_def less_eq_char_def)

lemma strip_no_space: "\<forall>c\<in>set s. \<not> py_isspace c \<Longrightarrow> strip s = s"
  by (simp add: strip_def dropWhile_none)

lemma META_LINE_RE_Some:
  assumes "META_LINE_RE line = Some (k, v)"
  shows "meta_line line k v"
proof -
  let ?l1 = "dropWhile py_isspace line"
  from assms obtain rest1 where l1: "?l1 = CHR ''%'' # rest1"
    by (auto simp: META_LINE_RE_def split: list.splits if_splits)
  let ?s = "dropWhile py_isspace rest1"
  from assms l1 have k: "k = takeWhile key_char ?s" and kne: "k \<noteq> []"
    by (auto simp: META_LINE_RE_def Let_def split: list.splits if_splits)
  let ?l2 = "dropWhile py_isspace (dropWhile key_char ?s)"
  from assms l1 kne k obtain rest2 where l2: "?l2 = CHR '':'' # rest2"
    by (auto simp: META_LINE_RE_def Let_def split: list.splits if_splits)
  from assms l1 kne k l2 have v: "v = strip rest2" and nl: "LF \<notin> set v"
    by (auto simp: META_LINE_RE_def Let_def strip_def split: list.splits if_splits)
  let ?w1 = "takeWhile py_isspace line"
  let ?w2 = "takeWhile py_isspace rest1"
  let ?w3 = "takeWhile py_isspace (dropWhile key_char ?s)"
  have "line = ?w1 @ ?l1" by simp
  also have "?l1 = ''%'' @ rest1" using l1 by simp
  also have "rest1 = ?w2 @ ?s" by simp
  also have "?s = k @ dropWhile key_char ?s" using k by simp
  also have "dropWhile key_char ?s = ?w3 @ ?l2" by simp
  also have "?l2 = '':'' @ rest2" using l2 by simp
  finally have "line = ?w1 @ ''%'' @ ?w2 @ k @ ?w3 @ '':'' @ rest2" .
  moreover have "list_all py_isspace ?w1" "list_all py_isspace ?w2" "list_all py_isspace ?w3"
    by (auto simp: list_all_iff dest: set_takeWhileD)
  moreover have "list_all key_char k" using k by (auto simp: list_all_iff dest: set_takeWhileD)
  ultimately show ?thesis unfolding meta_line_def using kne v nl by blast
qed

lemma dropWhile_all_then:
  "list_all P w \<Longrightarrow> \<not> P x \<Longrightarrow> dropWhile P (w @ x # r) = x # r"
  by (induction w) auto

lemma takeWhile_all_then:
  "list_all P w \<Longrightarrow> \<not> P x \<Longrightarrow> takeWhile P (w @ x # r) = w"
  by (induction w) auto

lemma meta_line_Some:
  assumes "meta_line line k v"
  shows "META_LINE_RE line = Some (k, v)"
proof -
  from assms obtain w1 w2 w3 raw where
    line: "line = w1 @ ''%'' @ w2 @ k @ w3 @ '':'' @ raw" and
    w: "list_all py_isspace w1" "list_all py_isspace w2" "list_all py_isspace w3" and
    k: "k \<noteq> []" "list_all key_char k" and v: "v = strip raw" "LF \<notin> set v"
    unfolding meta_line_def by blast
  have pct: "\<not> py_isspace (CHR ''%'')" and col: "\<not> py_isspace (CHR '':'')"
    and colk: "\<not> key_char (CHR '':'')"
    by (simp_all add: py_isspace_def key_char_def in_range_def less_eq_char_def)
  from k obtain k0 ks where k0: "k = k0 # ks" by (cases k) auto
  with k have "key_char k0" by simp
  then have k0s: "\<not> py_isspace k0" by (rule key_char_not_space)
  have 1: "dropWhile py_isspace line = CHR ''%'' # (w2 @ k @ w3 @ '':'' @ raw)"
    unfolding line using dropWhile_all_then[OF w(1) pct] by simp
  have 2: "dropWhile py_isspace (w2 @ k @ w3 @ '':'' @ raw) = k @ w3 @ '':'' @ raw"
    unfolding k0 using dropWhile_all_then[OF w(2) k0s] by simp
  obtain y r where y: "w3 @ '':'' @ raw = y # r" "\<not> key_char y"
  proof (cases w3)
    case Nil with colk that show ?thesis by simp
  next
    case (Cons a w)
    with w(3) have "py_isspace a" by simp
    then have "\<not> key_char a" using key_char_not_space by blast
    with Cons that show ?thesis by simp
  qed
  have 3: "takeWhile key_char (k @ w3 @ '':'' @ raw) = k"
    unfolding y(1) using takeWhile_all_then[OF k(2) y(2)] by simp
  have 4: "dropWhile key_char (k @ w3 @ '':'' @ raw) = w3 @ '':'' @ raw"
    unfolding y(1) using dropWhile_all_then[OF k(2) y(2)] by simp
  have 5: "dropWhile py_isspace (w3 @ '':'' @ raw) = CHR '':'' # raw"
    using dropWhile_all_then[OF w(3) col] by simp
  show ?thesis
    unfolding META_LINE_RE_def 1 using 2 3 4 5 k v
    by (simp add: Let_def strip_def)
qed

lemma META_LINE_RE_iff: "META_LINE_RE line = Some (k, v) \<longleftrightarrow> meta_line line k v"
  using META_LINE_RE_Some meta_line_Some by blast

lemma META_LINE_RE_clean:
  assumes "META_LINE_RE line = Some (k, v)"
  shows "strip k = k \<and> strip v = v"
proof -
  from META_LINE_RE_Some[OF assms] obtain raw where
    k: "list_all key_char k" and v: "v = strip raw"
    unfolding meta_line_def by blast
  from k have "\<forall>c\<in>set k. \<not> py_isspace c" by (auto simp: list_all_iff key_char_not_space)
  then have "strip k = k" by (rule strip_no_space)
  with v show ?thesis by (simp add: strip_idem)
qed

lemma blank_lstrip: "blank line \<Longrightarrow> lstrip line = []"
proof -
  assume "blank line"
  then have "rev (dropWhile py_isspace (rev (lstrip line))) = []"
    by (simp only: blank_def strip_def lstrip_def)
  then have "dropWhile py_isspace (rev (lstrip line)) = []" by (simp only: rev_is_Nil_conv)
  then have "\<forall>c\<in>set (lstrip line). py_isspace c" by simp
  moreover have "lstrip line \<noteq> [] \<Longrightarrow> \<not> py_isspace (hd (lstrip line))"
    unfolding lstrip_def by (rule hd_dropWhile)
  ultimately show ?thesis by (cases "lstrip line") auto
qed

lemma blank_not_comment: "blank line \<Longrightarrow> \<not> comment line"
  by (simp add: blank_lstrip comment_def startswith_def)

lemma scanned_Cons:
  "scanned (l # ls) = (if blank l \<or> comment l then l # scanned ls else [])"
  by (simp add: scanned_def)

lemma scan_lines_Cons:
  "scan_lines meta (line # rest) =
     (if blank line then scan_lines meta rest
      else if \<not> comment line then meta
      else (case META_LINE_RE line of
              Some (k, v) \<Rightarrow> scan_lines (meta(lower (strip k) \<mapsto> strip v)) rest
            | None \<Rightarrow> scan_lines meta rest))"
  by (simp add: blank_def comment_def)

lemma scan_lines_spec:
  "scan_lines meta ls = foldl record_line meta (filter comment (scanned ls))"
proof (induction ls arbitrary: meta)
  case Nil then show ?case by (simp add: scanned_def)
next
  case (Cons line rest)
  show ?case
  proof (cases "blank line")
    case True
    with blank_not_comment[OF True] Cons show ?thesis
      by (simp add: scan_lines_Cons scanned_Cons del: scan_lines.simps)
  next
    case False
    show ?thesis
    proof (cases "comment line")
      case c: False
      with False show ?thesis
        by (simp add: scan_lines_Cons scanned_Cons del: scan_lines.simps)
    next
      case c: True
      have sc: "filter comment (scanned (line # rest)) = line # filter comment (scanned rest)"
        using c by (simp add: scanned_Cons)
      show ?thesis
      proof (cases "META_LINE_RE line")
        case None
        then have "scan_lines meta (line # rest) = scan_lines meta rest"
          using False c by (simp add: scan_lines_Cons del: scan_lines.simps)
        moreover have "record_line meta line = meta" using None by (simp add: record_line_def)
        ultimately show ?thesis using Cons[of meta] by (simp add: sc del: scan_lines.simps)
      next
        case (Some kv)
        obtain k v where kv: "kv = (k, v)" by (cases kv)
        from META_LINE_RE_clean[OF Some[unfolded kv]] have cl: "strip k = k" "strip v = v"
          by auto
        have "scan_lines meta (line # rest) = scan_lines (meta(lower k \<mapsto> v)) rest"
          using False c Some kv cl
          by (simp add: scan_lines_Cons del: scan_lines.simps)
        moreover have "record_line meta line = meta(lower k \<mapsto> v)"
          using Some kv by (simp add: record_line_def)
        ultimately show ?thesis using Cons[of "meta(lower k \<mapsto> v)"]
          by (simp only: sc foldl.simps)
      qed
    qed
  qed
qed

lemma foldl_no_match:
  "\<forall>line\<in>set ls. META_LINE_RE line = None \<Longrightarrow> foldl record_line meta ls = meta"
  by (induction ls arbitrary: meta) (auto simp: record_line_def)

lemma foldl_keeps:
  "\<forall>l\<in>set ls. \<forall>k' v'. META_LINE_RE l = Some (k', v') \<longrightarrow> lower k' \<noteq> key \<Longrightarrow>
   foldl record_line meta ls key = meta key"
  by (induction ls arbitrary: meta) (auto simp: record_line_def split: option.splits)

text \<open>
  C5. The metadata of a document is what the specification words: the lines are
  scanned from the start while they are blank or comments (the first character that
  is not whitespace is the marker) and no further; of these lines each comment that
  matches the pattern records the lowercased key with the value, a later line
  overwriting an earlier one with the same key, and a comment that does not match
  records nothing. A line matches exactly when it is whitespace, the marker,
  whitespace, a nonempty key of letters, digits, underscores and hyphens, whitespace,
  a colon and a value, and the value recorded is the text after the colon without the
  whitespace around it. A document in which no scanned line matches has the empty
  mapping; nothing raises.
\<close>

theorem metadata_extraction:
  "parse_tex_metadata doc = metadata_spec doc \<and>
   (META_LINE_RE line = Some (k, v) \<longleftrightarrow> meta_line line k v) \<and>
   (META_LINE_RE line = Some (k, v) \<longrightarrow>
      list_all (\<lambda>c. word_char c \<or> c = CHR ''-'') k \<and> strip v = v) \<and>
   (filter comment (scanned (file_lines doc)) = before @ line # after \<and>
    META_LINE_RE line = Some (k, v) \<and>
    (\<forall>l\<in>set after. \<forall>k' v'. META_LINE_RE l = Some (k', v') \<longrightarrow> lower k' \<noteq> lower k) \<longrightarrow>
      parse_tex_metadata doc (lower k) = Some v) \<and>
   ((\<forall>l\<in>set (scanned (file_lines doc)). META_LINE_RE l = None) \<longrightarrow>
      parse_tex_metadata doc = Map.empty)"
proof -
  have 1: "parse_tex_metadata doc = metadata_spec doc"
    by (simp add: parse_tex_metadata_def metadata_spec_def scan_lines_spec)
  have 2: "list_all (\<lambda>c. word_char c \<or> c = CHR ''-'') k \<and> strip v = v"
    if "META_LINE_RE line = Some (k, v)"
  proof -
    from META_LINE_RE_Some[OF that] have "list_all key_char k" unfolding meta_line_def by blast
    then have "list_all (\<lambda>c. word_char c \<or> c = CHR ''-'') k"
      by (auto simp: list_all_iff key_char_word)
    with META_LINE_RE_clean[OF that] show ?thesis by simp
  qed
  have 3: "parse_tex_metadata doc (lower k) = Some v"
    if a: "filter comment (scanned (file_lines doc)) = before @ line # after"
      and b: "META_LINE_RE line = Some (k, v)"
      and c: "\<forall>l\<in>set after. \<forall>k' v'. META_LINE_RE l = Some (k', v') \<longrightarrow> lower k' \<noteq> lower k"
  proof -
    have "parse_tex_metadata doc (lower k) =
          foldl record_line (record_line (foldl record_line Map.empty before) line) after (lower k)"
      by (simp add: 1 metadata_spec_def a)
    also have "\<dots> = record_line (foldl record_line Map.empty before) line (lower k)"
      using c by (rule foldl_keeps)
    also have "\<dots> = Some v" using b by (simp add: record_line_def)
    finally show ?thesis .
  qed
  have 4: "parse_tex_metadata doc = Map.empty"
    if "\<forall>l\<in>set (scanned (file_lines doc)). META_LINE_RE l = None"
    using that by (simp add: 1 metadata_spec_def foldl_no_match)
  from 1 2 3 4 META_LINE_RE_iff[of line k v] show ?thesis by blast
qed

theorem metadata_extraction_witness:
  "filter comment (scanned (file_lines two_titles)) =
     [''% title: Draft'' @ [LF], ''  % see the appendix'' @ [LF]] @
     (''% Title :  Final  '' @ [LF]) # [] \<and>
   META_LINE_RE (''% Title :  Final  '' @ [LF]) = Some (''Title'', ''Final'') \<and>
   meta_line (''% Title :  Final  '' @ [LF]) ''Title'' ''Final'' \<and>
   parse_tex_metadata two_titles ''title'' = Some ''Final'' \<and>
   metadata_spec two_titles ''title'' = Some ''Final'' \<and>
   parse_tex_metadata ''Forces.'' = Map.empty \<and>
   parse_tex_metadata line_endings ''a'' = Some ''1'' \<and>
   parse_tex_metadata line_endings ''b'' = Some ''2''"
proof -
  let ?l = "''% Title :  Final  '' @ [LF]"
  have 1: "filter comment (scanned (file_lines two_titles)) =
     [''% title: Draft'' @ [LF], ''  % see the appendix'' @ [LF]] @ ?l # []" by code_simp
  have 2: "META_LINE_RE ?l = Some (''Title'', ''Final'')" by code_simp
  have 3: "lower ''Title'' = ''title''" by code_simp
  have 4: "scanned (file_lines ''Forces.'') = []" by code_simp
  note t = metadata_extraction [of two_titles ?l "''Title''" "''Final''"
      "[''% title: Draft'' @ [LF], ''  % see the appendix'' @ [LF]]" "[]"]
  from t have "META_LINE_RE ?l = Some (''Title'', ''Final'') \<longleftrightarrow>
      meta_line ?l ''Title'' ''Final''" by blast
  with 2 have a: "meta_line ?l ''Title'' ''Final''" by (simp only:)
  from t have "filter comment (scanned (file_lines two_titles)) =
      [''% title: Draft'' @ [LF], ''  % see the appendix'' @ [LF]] @ ?l # [] \<and>
    META_LINE_RE ?l = Some (''Title'', ''Final'') \<and>
    (\<forall>l\<in>set []. \<forall>k' v'. META_LINE_RE l = Some (k', v') \<longrightarrow> lower k' \<noteq> lower ''Title'') \<longrightarrow>
      parse_tex_metadata two_titles (lower ''Title'') = Some ''Final''" by blast
  with 1 2 have "parse_tex_metadata two_titles (lower ''Title'') = Some ''Final''" by simp
  then have b: "parse_tex_metadata two_titles ''title'' = Some ''Final''" by (simp only: 3)
  from t have "parse_tex_metadata two_titles = metadata_spec two_titles" by blast
  with b have c: "metadata_spec two_titles ''title'' = Some ''Final''" by simp
  from metadata_extraction [of "''Forces.''" ?l "''Title''" "''Final''" "[]" "[]"]
  have "(\<forall>l\<in>set (scanned (file_lines ''Forces.'')). META_LINE_RE l = None) \<longrightarrow>
      parse_tex_metadata ''Forces.'' = Map.empty" by blast
  with 4 have d: "parse_tex_metadata ''Forces.'' = Map.empty" by simp
  have 5: "metadata_spec line_endings ''a'' = Some ''1''" by code_simp
  have 6: "metadata_spec line_endings ''b'' = Some ''2''" by code_simp
  note r = metadata_extraction [of line_endings ?l "''Title''" "''Final''" "[]" "[]",
      THEN conjunct1]
  from 5 have e: "parse_tex_metadata line_endings ''a'' = Some ''1''" by (simp only: r)
  from 6 have f: "parse_tex_metadata line_endings ''b'' = Some ''2''" by (simp only: r)
  from 1 2 a b c d e f show ?thesis by simp
qed

section \<open>The claim about dates\<close>













end
